theory Spec2Isabelle
  imports Main "HOL-Library.Sublist"
begin

section \<open>AgentSense backfill preprocessor: strings\<close>

text \<open>
  The script \<^verbatim>\<open>scripts/backfill-prepare.py\<close> works on Python \<^verbatim>\<open>str\<close> values.
  A string is modelled as a \<^typ>\<open>string\<close>, one \<^typ>\<open>char\<close> per code point (code points
  0 to 255), so that \<^const>\<open>length\<close> is Python's \<^verbatim>\<open>len\<close>.
\<close>

abbreviation nl :: char where
  "nl \<equiv> CHR 0x0A"

abbreviation dquote :: char where
  "dquote \<equiv> CHR 0x22"

text \<open>\<^verbatim>\<open>str.isspace\<close> on the code points 0 to 255.\<close>

definition isspace :: "char \<Rightarrow> bool" where
  "isspace c = (c \<in> set [CHR 0x09, CHR 0x0A, CHR 0x0B, CHR 0x0C, CHR 0x0D,
                            CHR 0x1C, CHR 0x1D, CHR 0x1E, CHR 0x1F, CHR 0x20,
                            CHR 0x85, CHR 0xA0])"

text \<open>\<^verbatim>\<open>str.strip()\<close>: leading and trailing whitespace removed.\<close>

definition strip :: "string \<Rightarrow> string" where
  "strip s = rev (dropWhile isspace (rev (dropWhile isspace s)))"

text \<open>\<^verbatim>\<open>pat in s\<close>: some suffix of \<open>s\<close> starts with \<open>pat\<close>.\<close>

fun contains :: "string \<Rightarrow> string \<Rightarrow> bool" where
  "contains pat [] = (pat = [])"
| "contains pat (c # cs) = (prefix pat (c # cs) \<or> contains pat cs)"

text \<open>\<^verbatim>\<open>s.find(pat)\<close>: the index of the first occurrence, if any.\<close>

fun find_first :: "string \<Rightarrow> string \<Rightarrow> nat option" where
  "find_first pat [] = (if pat = [] then Some 0 else None)"
| "find_first pat (c # cs) =
     (if prefix pat (c # cs) then Some 0 else map_option Suc (find_first pat cs))"

text \<open>
  \<^verbatim>\<open>text.split("\n\n")\<close>: the separator is searched from the left, occurrences do not
  overlap, and the result always has at least one element (the recursive call never
  returns the empty list, so the second branch of the inner case is never taken).
\<close>

fun split_nn :: "string \<Rightarrow> string list" where
  "split_nn [] = [[]]"
| "split_nn [c] = [[c]]"
| "split_nn (a # b # cs) =
     (if a = nl \<and> b = nl then [] # split_nn cs
      else (case split_nn (b # cs) of
              p # ps \<Rightarrow> (a # p) # ps
            | [] \<Rightarrow> [[a]]))"

text \<open>\<^verbatim>\<open>sep.join(xs)\<close>.\<close>

fun join :: "string \<Rightarrow> string list \<Rightarrow> string" where
  "join sep [] = []"
| "join sep [x] = x"
| "join sep (x # y # ys) = x @ sep @ join sep (y # ys)"

section \<open>Configuration\<close>

definition CHUNK_SIZE :: int where
  "CHUNK_SIZE = 6000"

definition MIN_MSG_LEN :: nat where
  "MIN_MSG_LEN = 80"

section \<open>The chunker\<close>

type_synonym chunk = "string \<times> string"

text \<open>
  One iteration of the loop of \<^verbatim>\<open>chunk_text\<close> (lines 80 to 85). The state is the list
  of chunks emitted so far and the buffer \<^verbatim>\<open>current\<close>; an empty buffer is falsy.
\<close>

definition chunk_step :: "string \<Rightarrow> int \<Rightarrow> chunk list \<times> string \<Rightarrow> string \<Rightarrow> chunk list \<times> string" where
  "chunk_step source chunk_size st para =
     (case st of (chunks, current) \<Rightarrow>
        if int (length current) + int (length para) + 2 > chunk_size \<and> current \<noteq> []
        then (chunks @ [(strip current, source)], para)
        else (chunks, if current \<noteq> [] then current @ [nl, nl] @ para else para))"

definition chunk_loop :: "string \<Rightarrow> int \<Rightarrow> chunk list \<times> string \<Rightarrow> string list \<Rightarrow> chunk list \<times> string" where
  "chunk_loop source chunk_size st paragraphs = foldl (chunk_step source chunk_size) st paragraphs"

text \<open>The flush after the loop (lines 87 and 88): a buffer that trims to nothing is dropped.\<close>

definition chunk_finish :: "string \<Rightarrow> chunk list \<times> string \<Rightarrow> chunk list" where
  "chunk_finish source st =
     (case st of (chunks, current) \<Rightarrow>
        if strip current \<noteq> [] then chunks @ [(strip current, source)] else chunks)"

definition chunk_text :: "string \<Rightarrow> string \<Rightarrow> int \<Rightarrow> chunk list" where
  "chunk_text text source chunk_size =
     (if int (length text) \<le> chunk_size then [(text, source)]
      else chunk_finish source (chunk_loop source chunk_size ([], []) (split_nn text)))"

section \<open>The text normalizer\<close>

text \<open>
  \<^verbatim>\<open>re.sub(pattern, repl, text)\<close> for a pattern that never matches the empty string.
  The pattern is given by its matcher: \<open>m s = Some n\<close> when the pattern matches at the
  start of \<open>s\<close> and the match found by the regex engine there has length \<open>n\<close>. The
  scan goes from the left; after a match it continues behind the match, elsewhere the
  character is copied and the scan moves on by one.
\<close>

function re_sub :: "(string \<Rightarrow> nat option) \<Rightarrow> string \<Rightarrow> string \<Rightarrow> string" where
  "re_sub m repl [] = []"
| "re_sub m repl (c # cs) =
     (case m (c # cs) of
        Some n \<Rightarrow> if 0 < n then repl @ re_sub m repl (drop n (c # cs))
                  else c # re_sub m repl cs
      | None \<Rightarrow> c # re_sub m repl cs)"
  by pat_completeness auto
termination
  by (relation "measure (\<lambda>(m, repl, s). length s)") auto

text \<open>
  \<^verbatim>\<open>open.*?close\<close> with \<^verbatim>\<open>re.DOTALL\<close>: the opening tag, then the shortest text up to
  the first closing tag behind it.
\<close>

definition match_block :: "string \<Rightarrow> string \<Rightarrow> string \<Rightarrow> nat option" where
  "match_block opening closing s =
     (if prefix opening s
      then (case find_first closing (drop (length opening) s) of
              Some k \<Rightarrow> Some (length opening + k + length closing)
            | None \<Rightarrow> None)
      else None)"

definition kgc_open :: string where
  "kgc_open = ''<knowledge-graph-context>''"

definition kgc_close :: string where
  "kgc_close = ''</knowledge-graph-context>''"

definition fr_open :: string where
  "fr_open = ''<function_results>''"

definition fr_close :: string where
  "fr_close = ''</function_results>''"

definition fence_open :: string where
  "fence_open = ''```json'' @ [nl] @ ''{''"

definition fence_close :: string where
  "fence_close = ''}'' @ [nl] @ ''```''"

definition message_id_key :: string where
  "message_id_key = [dquote] @ ''message_id'' @ [dquote]"

text \<open>
  The metadata pattern (line 63): the fence and an opening brace, characters other than a
  closing brace among which the quoted key \<^verbatim>\<open>"message_id"\<close> occurs, the closing brace
  and the closing fence. Neither \<^verbatim>\<open>[^}]*\<close> can cross a closing brace, so the body is
  the text up to the first closing brace.
\<close>

definition match_metadata :: "string \<Rightarrow> nat option" where
  "match_metadata s =
     (if prefix fence_open s
      then (let r = drop (length fence_open) s;
                body = takeWhile (\<lambda>c. c \<noteq> CHR ''}'') r;
                rest = dropWhile (\<lambda>c. c \<noteq> CHR ''}'') r
            in if contains message_id_key body \<and> prefix fence_close rest
               then Some (length fence_open + length body + length fence_close)
               else None)
      else None)"

text \<open>\<^verbatim>\<open>\n{3,}\<close>: a maximal run of newlines, of length three or more.\<close>

definition match_newlines :: "string \<Rightarrow> nat option" where
  "match_newlines s =
     (if prefix [nl, nl, nl] s then Some (length (takeWhile (\<lambda>c. c = nl) s)) else None)"

definition clean_text :: "string \<Rightarrow> string" where
  "clean_text text =
     (let t1 = re_sub (match_block kgc_open kgc_close) [] text;
          t2 = re_sub match_metadata [] t1;
          t3 = re_sub (match_block fr_open fr_close) ''[tool output]'' t2;
          t4 = re_sub match_newlines [nl, nl] t3
      in strip t4)"

section \<open>The noise predicate\<close>

definition tool_call_key :: string where
  "tool_call_key = [dquote] @ ''toolCallId'' @ [dquote]"

text \<open>The rule of line 50: the opening tag occurs in \<^verbatim>\<open>text[:100]\<close>.\<close>

definition kgc_in_head :: "string \<Rightarrow> bool" where
  "kgc_in_head text = contains kgc_open (take 100 text)"

definition is_noise :: "string \<Rightarrow> bool" where
  "is_noise text =
     (if length text < MIN_MSG_LEN then True
      else if prefix ''{'' (strip text) \<and> contains tool_call_key text then True
      else if kgc_in_head text then True
      else if strip text \<in> set [''NO_REPLY'', ''HEARTBEAT_OK''] then True
      else False)"

section \<open>Session logs\<close>

text \<open>
  A line of a session file after \<^verbatim>\<open>json.loads\<close>: a JSON value, or nothing when the line
  does not parse. A dict is an association list read with \<^const>\<open>map_of\<close>.
\<close>

datatype json =
    JNull
  | JBool bool
  | JNum int
  | JStr string
  | JArr "json list"
  | JObj "(string \<times> json) list"

text \<open>
  The exceptions that the handler around one line (\<^verbatim>\<open>JSONDecodeError\<close>, \<^verbatim>\<open>KeyError\<close>)
  does not catch: they reach the handler around the whole file.
\<close>

datatype exn = AttributeError | TypeError

text \<open>\<^verbatim>\<open>x.get(key, default)\<close>: only a dict has the method.\<close>

fun dict_get :: "json \<Rightarrow> string \<Rightarrow> json \<Rightarrow> exn + json" where
  "dict_get (JObj kvs) key dflt = Inr (case map_of kvs key of Some v \<Rightarrow> v | None \<Rightarrow> dflt)"
| "dict_get _ key dflt = Inl AttributeError"

text \<open>The list \<^verbatim>\<open>texts\<close> of \<^verbatim>\<open>extract_text_from_content\<close> (lines 35 to 39).\<close>

fun text_parts :: "json list \<Rightarrow> json list" where
  "text_parts [] = []"
| "text_parts (JObj kvs # items) =
     (if map_of kvs ''type'' = Some (JStr ''text'')
      then (case map_of kvs ''text'' of Some v \<Rightarrow> v | None \<Rightarrow> JStr []) # text_parts items
      else text_parts items)"
| "text_parts (_ # items) = text_parts items"

text \<open>\<^verbatim>\<open>"\n".join(texts)\<close> raises \<^verbatim>\<open>TypeError\<close> when an element is not a string.\<close>

fun as_strings :: "json list \<Rightarrow> string list option" where
  "as_strings [] = Some []"
| "as_strings (JStr s # xs) = map_option ((#) s) (as_strings xs)"
| "as_strings (_ # xs) = None"

fun extract_text_from_content :: "json \<Rightarrow> exn + string" where
  "extract_text_from_content (JStr s) = Inr s"
| "extract_text_from_content (JArr items) =
     (case as_strings (text_parts items) of
        Some texts \<Rightarrow> Inr (join [nl] texts)
      | None \<Rightarrow> Inl TypeError)"
| "extract_text_from_content _ = Inr []"

text \<open>
  Lines 138 to 150 for a message of role \<open>role\<close> whose extracted text is \<open>text\<close>: the
  labelled message appended to \<^verbatim>\<open>messages\<close>, or nothing.
\<close>

definition session_message :: "json \<Rightarrow> string \<Rightarrow> string option" where
  "session_message role text =
     (if is_noise text then None
      else (let text' = clean_text text
            in if length text' \<ge> MIN_MSG_LEN
               then Some (''['' @ (if role = JStr ''user'' then ''User'' else ''Assistant'')
                          @ '']: '' @ text')
               else None))"

text \<open>
  The body of the loop over the lines (lines 133 to 152): \<open>Inr None\<close> is \<^verbatim>\<open>continue\<close>,
  \<open>Inr (Some m)\<close> appends \<open>m\<close>, \<open>Inl e\<close> is an exception that leaves the loop.
\<close>

definition session_line :: "json option \<Rightarrow> exn + string option" where
  "session_line line =
     (case line of
        None \<Rightarrow> Inr None
      | Some obj \<Rightarrow>
          (case dict_get obj ''message'' obj of
             Inl e \<Rightarrow> Inl e
           | Inr msg \<Rightarrow>
               (case dict_get msg ''role'' (JStr []) of
                  Inl e \<Rightarrow> Inl e
                | Inr role \<Rightarrow>
                    if role \<noteq> JStr ''user'' \<and> role \<noteq> JStr ''assistant'' then Inr None
                    else (case dict_get msg ''content'' (JStr []) of
                            Inl e \<Rightarrow> Inl e
                          | Inr content \<Rightarrow>
                              (case extract_text_from_content content of
                                 Inl e \<Rightarrow> Inl e
                               | Inr text \<Rightarrow> Inr (session_message role text))))))"

fun session_loop :: "string list \<Rightarrow> json option list \<Rightarrow> exn + string list" where
  "session_loop messages [] = Inr messages"
| "session_loop messages (line # lines) =
     (case session_line line of
        Inl e \<Rightarrow> Inl e
      | Inr None \<Rightarrow> session_loop messages lines
      | Inr (Some m) \<Rightarrow> session_loop (messages @ [m]) lines)"

text \<open>\<^verbatim>\<open>os.path.basename\<close>: what follows the last slash.\<close>

definition basename :: "string \<Rightarrow> string" where
  "basename p = rev (takeWhile (\<lambda>c. c \<noteq> CHR ''/'') (rev p))"

text \<open>
  \<^verbatim>\<open>process_session_file\<close>. The file is given by its lines, or by nothing when opening
  or reading it raises; every exception that reaches the outer handler gives the empty
  list.
\<close>

definition process_session_file :: "json option list option \<Rightarrow> string \<Rightarrow> chunk list" where
  "process_session_file file filepath =
     (case file of
        None \<Rightarrow> []
      | Some lines \<Rightarrow>
          (case session_loop [] lines of
             Inl e \<Rightarrow> []
           | Inr messages \<Rightarrow>
               if messages = [] then []
               else chunk_text (join [nl, nl] messages) (''session:'' @ basename filepath)
                      CHUNK_SIZE))"

section \<open>Memory files\<close>

text \<open>
  Lines 110 to 120 for one file. \<open>read_file\<close> is the file system (nothing when \<^verbatim>\<open>open\<close>
  or \<^verbatim>\<open>read\<close> raises) and \<open>relpath\<close> is \<^verbatim>\<open>os.path.relpath\<close> relative to the memory
  directory.
\<close>

definition memory_file_chunks :: "(string \<Rightarrow> string option) \<Rightarrow> (string \<Rightarrow> string) \<Rightarrow> string \<Rightarrow> chunk list" where
  "memory_file_chunks read_file relpath filepath =
     (case read_file filepath of
        None \<Rightarrow> []
      | Some text \<Rightarrow>
          if length (strip text) < MIN_MSG_LEN then []
          else chunk_text (clean_text text) (''memory:'' @ relpath filepath) CHUNK_SIZE)"

text \<open>Lines 106 to 118: the state is \<^verbatim>\<open>seen_files\<close> and \<^verbatim>\<open>chunks\<close>.\<close>

definition memory_step :: "(string \<Rightarrow> string option) \<Rightarrow> (string \<Rightarrow> string) \<Rightarrow> string set \<times> chunk list \<Rightarrow> string \<Rightarrow> string set \<times> chunk list" where
  "memory_step read_file relpath st filepath =
     (case st of (seen_files, chunks) \<Rightarrow>
        if filepath \<in> seen_files then (seen_files, chunks)
        else (insert filepath seen_files,
              chunks @ memory_file_chunks read_file relpath filepath))"

text \<open>
  \<^verbatim>\<open>process_memory_files\<close>: \<open>globbed\<close> holds, for each pattern in order, the paths that
  \<^verbatim>\<open>glob.glob\<close> returns for it.
\<close>

definition process_memory_files :: "(string \<Rightarrow> string option) \<Rightarrow> (string \<Rightarrow> string) \<Rightarrow> string list list \<Rightarrow> chunk list" where
  "process_memory_files read_file relpath globbed =
     snd (foldl (\<lambda>st matches. foldl (memory_step read_file relpath) st matches) ({}, []) globbed)"

section \<open>The sink\<close>

record observation =
  obs_source :: string
  raw_text :: string
  entities_json :: string
  session_key :: string

datatype report = WouldInsert nat | Inserted nat

text \<open>
  The observations table is the list of its rows. \<open>rejects table row\<close> says that the
  \<^verbatim>\<open>INSERT\<close> of \<open>row\<close> raises in the state \<open>table\<close>; a statement that raises leaves the
  table as it was.
\<close>

definition db_execute :: "(observation list \<Rightarrow> observation \<Rightarrow> bool) \<Rightarrow> observation list \<Rightarrow> observation \<Rightarrow> observation list option" where
  "db_execute rejects table row = (if rejects table row then None else Some (table @ [row]))"

text \<open>
  One iteration of the loop of lines 201 to 209; \<open>today i\<close> is the date that
  \<^verbatim>\<open>datetime.now().strftime('%Y%m%d')\<close> gives in iteration \<open>i\<close>.
\<close>

definition chunk_row :: "(nat \<Rightarrow> string) \<Rightarrow> nat \<times> chunk \<Rightarrow> observation" where
  "chunk_row today ic =
     (case ic of (i, text, src) \<Rightarrow>
        \<lparr>obs_source = ''backfill:'' @ src, raw_text = text, entities_json = [],
         session_key = ''backfill-'' @ today i\<rparr>)"

definition insert_step :: "(observation list \<Rightarrow> observation \<Rightarrow> bool) \<Rightarrow> (nat \<Rightarrow> string) \<Rightarrow> observation list \<times> nat \<Rightarrow> nat \<times> chunk \<Rightarrow> observation list \<times> nat" where
  "insert_step rejects today st ic =
     (case st of (table, inserted) \<Rightarrow>
        (case db_execute rejects table (chunk_row today ic) of
           Some table' \<Rightarrow> (table', inserted + 1)
         | None \<Rightarrow> (table, inserted)))"

definition insert_observations :: "(observation list \<Rightarrow> observation \<Rightarrow> bool) \<Rightarrow> (nat \<Rightarrow> string) \<Rightarrow> observation list \<Rightarrow> chunk list \<Rightarrow> bool \<Rightarrow> observation list \<times> report" where
  "insert_observations rejects today table chunks dry_run =
     (if dry_run then (table, WouldInsert (length chunks))
      else (case foldl (insert_step rejects today) (table, 0) (enumerate 0 chunks) of
              (table', inserted) \<Rightarrow> (table', Inserted inserted)))"

section \<open>Notions used to state the properties\<close>

text \<open>\<open>pat\<close> occurs in \<open>s\<close> starting at the character of index \<open>i\<close>.\<close>

definition occurs_at :: "string \<Rightarrow> string \<Rightarrow> nat \<Rightarrow> bool" where
  "occurs_at pat s i = (i + length pat \<le> length s \<and> take (length pat) (drop i s) = pat)"

text \<open>The elements of a list in the order of their first occurrence, each once.\<close>

primrec first_seen :: "'a list \<Rightarrow> 'a list" where
  "first_seen [] = []"
| "first_seen (x # xs) = x # filter (\<lambda>y. y \<noteq> x) (first_seen xs)"

text \<open>
  A file system with symbolic links, to tell the path strings from the files: \<open>links\<close>
  sends a path to the path it resolves to (a path without an entry resolves to itself),
  and a file is read at its resolved path.
\<close>

definition resolve_links :: "(string \<times> string) list \<Rightarrow> string \<Rightarrow> string" where
  "resolve_links links p = (case map_of links p of Some q \<Rightarrow> q | None \<Rightarrow> p)"

definition read_through :: "(string \<times> string) list \<Rightarrow> (string \<times> string) list \<Rightarrow> string \<Rightarrow> string option" where
  "read_through links files p = map_of files (resolve_links links p)"

text \<open>The pattern of the matcher \<open>m\<close> matches somewhere in \<open>s\<close>.\<close>

fun has_match :: "(string \<Rightarrow> nat option) \<Rightarrow> string \<Rightarrow> bool" where
  "has_match m [] = (m [] \<noteq> None)"
| "has_match m (c # cs) = (m (c # cs) \<noteq> None \<or> has_match m cs)"

text \<open>A matcher whose matches are longer than the replacement.\<close>

definition shrinking :: "(string \<Rightarrow> nat option) \<Rightarrow> string \<Rightarrow> bool" where
  "shrinking m repl = (\<forall>s n. m s = Some n \<longrightarrow> length repl < n \<and> length repl < length s)"

text \<open>The number of newlines that a string starts with.\<close>

definition lead :: "string \<Rightarrow> nat" where
  "lead s = length (takeWhile (\<lambda>c. c = nl) s)"

text \<open>The message that a line of a session file adds to \<^verbatim>\<open>messages\<close>, if any.\<close>

definition line_message :: "json option \<Rightarrow> string option" where
  "line_message line = (case session_line line of Inr (Some m) \<Rightarrow> Some m | _ \<Rightarrow> None)"

section \<open>Strings: basic facts\<close>


lemma contains_iff: "contains pat s \<longleftrightarrow> (\<exists>i\<le>length s. prefix pat (drop i s))"
proof (induction s)
  case Nil
  then show ?case by simp
next
  case (Cons c cs)
  show ?case
  proof
    assume "contains pat (c # cs)"
    then consider "prefix pat (c # cs)" | "contains pat cs" by auto
    then show "\<exists>i\<le>length (c # cs). prefix pat (drop i (c # cs))"
    proof cases
      case 1
      then have "prefix pat (drop 0 (c # cs))" by simp
      then show ?thesis by blast
    next
      case 2
      then obtain i where "i \<le> length cs" "prefix pat (drop i cs)" using Cons.IH by auto
      then have "Suc i \<le> length (c # cs)" "prefix pat (drop (Suc i) (c # cs))" by auto
      then show ?thesis by blast
    qed
  next
    assume "\<exists>i\<le>length (c # cs). prefix pat (drop i (c # cs))"
    then obtain i where i: "i \<le> length (c # cs)" "prefix pat (drop i (c # cs))" by auto
    show "contains pat (c # cs)"
    proof (cases i)
      case 0
      then show ?thesis using i by simp
    next
      case (Suc j)
      then have "j \<le> length cs" "prefix pat (drop j cs)" using i by auto
      then show ?thesis using Cons.IH by auto
    qed
  qed
qed

lemma occurs_at_prefix: "occurs_at pat s i \<Longrightarrow> prefix pat (drop i s)"
  unfolding occurs_at_def by (metis take_is_prefix)

lemma prefix_occurs_at:
  assumes "prefix pat (drop i s)" and "i \<le> length s"
  shows "occurs_at pat s i"
proof -
  from assms(1) obtain r where r: "drop i s = pat @ r" by (auto simp: prefix_def)
  then have "length (drop i s) = length pat + length r" by simp
  then have "i + length pat \<le> length s" using assms(2) by simp
  moreover have "take (length pat) (drop i s) = pat" using r by simp
  ultimately show ?thesis by (simp add: occurs_at_def)
qed

lemma contains_occurs: "contains pat s \<longleftrightarrow> (\<exists>i. occurs_at pat s i)"
proof
  assume "contains pat s"
  then obtain i where "i \<le> length s" "prefix pat (drop i s)" by (auto simp: contains_iff)
  then show "\<exists>i. occurs_at pat s i" using prefix_occurs_at by blast
next
  assume "\<exists>i. occurs_at pat s i"
  then obtain i where i: "occurs_at pat s i" by blast
  then have "i \<le> length s" by (simp add: occurs_at_def)
  then show "contains pat s" using occurs_at_prefix [OF i] by (auto simp: contains_iff)
qed

section \<open>The chunker on short and empty texts\<close>

text \<open>
  Claim C10. For every source label and every chunk size limit that is not negative,
  \<^const>\<open>chunk_text\<close> on the empty string returns exactly one chunk, with the empty text.
  So a memory file whose trimmed raw content has at least \<^const>\<open>MIN_MSG_LEN\<close> characters
  and whose cleaned text is empty contributes one chunk with empty text.
\<close>

theorem chunk_text_empty_text:
  "(0 \<le> chunk_size \<longrightarrow> chunk_text [] source chunk_size = [([], source)]) \<and>
   (read_file filepath = Some text \<and> MIN_MSG_LEN \<le> length (strip text) \<and> clean_text text = []
      \<longrightarrow> memory_file_chunks read_file relpath filepath = [([], ''memory:'' @ relpath filepath)])"
  by (simp add: chunk_text_def memory_file_chunks_def CHUNK_SIZE_def)

theorem chunk_text_empty_text_witness:
  "(0::int) \<le> 0 \<and> chunk_text [] ''memory:a.md'' 0 = [([], ''memory:a.md'')] \<and>
   MIN_MSG_LEN \<le> length (strip (kgc_open @ replicate 60 (CHR ''a'') @ kgc_close)) \<and>
   clean_text (kgc_open @ replicate 60 (CHR ''a'') @ kgc_close) = [] \<and>
   memory_file_chunks (\<lambda>p. Some (kgc_open @ replicate 60 (CHR ''a'') @ kgc_close)) (\<lambda>p. ''a.md'') ''/m/a.md''
     = [([], ''memory:a.md'')]"
proof -
  let ?t = "kgc_open @ replicate 60 (CHR ''a'') @ kgc_close"
  have h1: "MIN_MSG_LEN \<le> length (strip ?t)" by code_simp
  have h2: "clean_text ?t = []" by code_simp
  from chunk_text_empty_text [of 0 "''memory:a.md''" "\<lambda>p. Some ?t" "''/m/a.md''" ?t "\<lambda>p. ''a.md''"] h1 h2
  show ?thesis by simp
qed

section \<open>The noise predicate: the four rules\<close>

lemma take_occurs:
  assumes "occurs_at pat s i" and "i + length pat \<le> n"
  shows "occurs_at pat (take n s) i"
proof -
  have "take (length pat) (drop i (take n s)) = take (length pat) (take (n - i) (drop i s))"
    by (simp add: drop_take)
  also have "\<dots> = take (length pat) (drop i s)"
    using assms(2) by (simp add: min_def)
  finally show ?thesis using assms by (simp add: occurs_at_def)
qed

lemma occurs_take:
  assumes "occurs_at pat (take n s) i"
  shows "occurs_at pat s i \<and> i + length pat \<le> n"
proof -
  from assms have le: "i + length pat \<le> length (take n s)"
    and eq: "take (length pat) (drop i (take n s)) = pat"
    by (simp_all add: occurs_at_def)
  from le have n: "i + length pat \<le> n" and l: "i + length pat \<le> length s" by simp_all
  have "take (length pat) (drop i (take n s)) = take (length pat) (take (n - i) (drop i s))"
    by (simp add: drop_take)
  also have "\<dots> = take (length pat) (drop i s)"
    using n by (simp add: min_def)
  finally have "take (length pat) (drop i s) = pat" using eq by simp
  then show ?thesis using n l by (simp add: occurs_at_def)
qed

lemma occurs_at_hd:
  assumes "occurs_at (p # ps) s j"
  shows "j < length s \<and> s ! j = p"
proof -
  from assms have l: "j + length (p # ps) \<le> length s"
    and e: "take (length (p # ps)) (drop j s) = p # ps" by (simp_all add: occurs_at_def)
  from l have jl: "j < length s" by simp
  then have "drop j s = s ! j # drop (Suc j) s" by (simp add: Cons_nth_drop_Suc)
  with e have "s ! j = p" by simp
  with jl show ?thesis by simp
qed

text \<open>
  Claim C5. \<^const>\<open>is_noise\<close> holds of every text of length 79, whatever its content;
  of every text whose trimmed content is one of the sentinels \<^verbatim>\<open>NO_REPLY\<close> and
  \<^verbatim>\<open>HEARTBEAT_OK\<close>; and of every text in which the opening tag
  \<^const>\<open>kgc_open\<close> occurs wholly within the first 100 characters, as when it starts
  at character 50. The rule of the tag, \<^const>\<open>kgc_in_head\<close>, does not fire on a text
  whose only occurrence of the tag starts at character 150.
\<close>

theorem is_noise_rules:
  "(length text = 79 \<longrightarrow> is_noise text) \<and>
   (strip text = ''NO_REPLY'' \<or> strip text = ''HEARTBEAT_OK'' \<longrightarrow> is_noise text) \<and>
   (occurs_at kgc_open text i \<and> i + length kgc_open \<le> 100 \<longrightarrow> is_noise text) \<and>
   (occurs_at kgc_open text 150 \<and> (\<forall>j. occurs_at kgc_open text j \<longrightarrow> j = 150)
      \<longrightarrow> \<not> kgc_in_head text)"
proof (intro conjI impI)
  assume "length text = 79"
  then show "is_noise text" by (simp add: is_noise_def MIN_MSG_LEN_def)
next
  assume "strip text = ''NO_REPLY'' \<or> strip text = ''HEARTBEAT_OK''"
  then show "is_noise text" by (auto simp: is_noise_def)
next
  assume "occurs_at kgc_open text i \<and> i + length kgc_open \<le> 100"
  then have "occurs_at kgc_open (take 100 text) i" using take_occurs by blast
  then have "kgc_in_head text" unfolding kgc_in_head_def contains_occurs by blast
  then show "is_noise text" by (simp add: is_noise_def)
next
  assume a: "occurs_at kgc_open text 150 \<and> (\<forall>j. occurs_at kgc_open text j \<longrightarrow> j = 150)"
  show "\<not> kgc_in_head text"
  proof
    assume "kgc_in_head text"
    then obtain j where j: "occurs_at kgc_open (take 100 text) j"
      unfolding kgc_in_head_def contains_occurs by blast
    then have "occurs_at kgc_open text j" "j + length kgc_open \<le> 100"
      using occurs_take by blast+
    then show False using a by auto
  qed
qed

theorem is_noise_rules_witness:
  "is_noise (replicate 79 (CHR ''a'')) \<and>
   is_noise (replicate 100 (CHR '' '') @ ''NO_REPLY'') \<and>
   is_noise (replicate 100 (CHR '' '') @ ''HEARTBEAT_OK'') \<and>
   is_noise (replicate 50 (CHR ''a'') @ kgc_open @ replicate 50 (CHR ''a'')) \<and>
   occurs_at kgc_open (replicate 150 (CHR ''a'') @ kgc_open) 150 \<and>
   \<not> occurs_at kgc_open (replicate 150 (CHR ''a'') @ kgc_open) 0 \<and>
   \<not> kgc_in_head (replicate 150 (CHR ''a'') @ kgc_open) \<and>
   \<not> is_noise (replicate 150 (CHR ''a'') @ kgc_open)"
proof -
  let ?a = "replicate 79 (CHR ''a'')"
  let ?b = "replicate 100 (CHR '' '') @ ''NO_REPLY''"
  let ?c = "replicate 100 (CHR '' '') @ ''HEARTBEAT_OK''"
  let ?d = "replicate 50 (CHR ''a'') @ kgc_open @ replicate 50 (CHR ''a'')"
  let ?e = "replicate 150 (CHR ''a'') @ kgc_open"
  have a: "length ?a = 79" by simp
  have b: "strip ?b = ''NO_REPLY''" by code_simp
  have c: "strip ?c = ''HEARTBEAT_OK''" by code_simp
  have d: "occurs_at kgc_open ?d 50 \<and> 50 + length kgc_open \<le> 100" by code_simp
  have e1: "occurs_at kgc_open ?e 150" by code_simp
  have e2: "\<forall>j. occurs_at kgc_open ?e j \<longrightarrow> j = 150"
  proof (intro allI impI)
    fix j assume o: "occurs_at kgc_open ?e j"
    then have "j + 25 \<le> 175" by (simp add: occurs_at_def kgc_open_def)
    moreover have "?e ! j = CHR ''<''" using occurs_at_hd [of "CHR ''<''" _ ?e j] o
      by (simp add: kgc_open_def)
    then have "\<not> j < 150" by (auto simp: nth_append)
    ultimately show "j = 150" by simp
  qed
  have f: "\<not> is_noise ?e" by code_simp
  have e0: "\<not> occurs_at kgc_open ?e 0" using e2 by auto
  have ra: "is_noise ?a"
    by (rule is_noise_rules [of ?a 0, THEN conjunct1, THEN mp, OF a])
  have rb: "is_noise ?b"
    by (rule is_noise_rules [of ?b 0, THEN conjunct2, THEN conjunct1, THEN mp, OF disjI1, OF b])
  have rc: "is_noise ?c"
    by (rule is_noise_rules [of ?c 0, THEN conjunct2, THEN conjunct1, THEN mp, OF disjI2, OF c])
  have rd: "is_noise ?d"
    by (rule is_noise_rules [of ?d 50, THEN conjunct2, THEN conjunct2, THEN conjunct1, THEN mp, OF d])
  have re: "\<not> kgc_in_head ?e"
    by (rule is_noise_rules [of ?e 0, THEN conjunct2, THEN conjunct2, THEN conjunct2, THEN mp,
          OF conjI [OF e1 e2]])
  show ?thesis
    apply (intro conjI)
    apply (rule ra) apply (rule rb) apply (rule rc) apply (rule rd)
    apply (rule e1) apply (rule e0) apply (rule re) apply (rule f)
    done
qed

section \<open>Memory files: each path once\<close>

lemma set_first_seen: "set (first_seen xs) = set xs"
  by (induction xs) auto

lemma distinct_first_seen: "distinct (first_seen xs)"
  by (induction xs) (auto simp: set_first_seen)

lemma memory_fold:
  "foldl (memory_step read_file relpath) (seen, chunks) ps =
     (seen \<union> set ps,
      chunks @ concat (map (memory_file_chunks read_file relpath)
                          (filter (\<lambda>p. p \<notin> seen) (first_seen ps))))"
proof (induction ps arbitrary: seen chunks)
  case Nil
  then show ?case by simp
next
  case (Cons p ps)
  show ?case
  proof (cases "p \<in> seen")
    case True
    have "filter (\<lambda>q. q \<notin> seen) (filter (\<lambda>y. y \<noteq> p) (first_seen ps))
            = filter (\<lambda>q. q \<notin> seen) (first_seen ps)"
      using True by (auto simp: filter_filter intro: filter_cong)
    then show ?thesis using True Cons.IH [of seen chunks]
      by (auto simp: memory_step_def)
  next
    case False
    have "filter (\<lambda>q. q \<notin> insert p seen) (first_seen ps)
            = filter (\<lambda>q. q \<notin> seen) (filter (\<lambda>y. y \<noteq> p) (first_seen ps))"
      by (auto simp: filter_filter intro: filter_cong)
    then show ?thesis
      using False Cons.IH [of "insert p seen" "chunks @ memory_file_chunks read_file relpath p"]
      by (simp add: memory_step_def)
  qed
qed

lemma foldl_nested: "foldl (\<lambda>st xs. foldl g st xs) st xss = foldl g st (concat xss)"
  by (induction xss arbitrary: st) simp_all

section \<open>The sink: one failure does not stop the batch\<close>

lemma insert_step_rejected:
  "rejects table (chunk_row today ic) \<Longrightarrow>
     insert_step rejects today (table, n) ic = (table, n)"
  by (simp add: insert_step_def db_execute_def)

lemma insert_step_accepted:
  "\<not> rejects table (chunk_row today ic) \<Longrightarrow>
     insert_step rejects today (table, n) ic = (table @ [chunk_row today ic], n + 1)"
  by (simp add: insert_step_def db_execute_def)

lemma insert_fold:
  "foldl (insert_step rejects today) (table, n) ics = (table', n') \<Longrightarrow>
     \<exists>added. table' = table @ added \<and> n' = n + length added \<and> length added \<le> length ics \<and>
       set added \<subseteq> chunk_row today ` set ics \<and>
       (\<forall>ic \<in> set ics. (\<forall>t. \<not> rejects t (chunk_row today ic)) \<longrightarrow> chunk_row today ic \<in> set added)"
proof (induction ics arbitrary: table n)
  case Nil
  then show ?case by simp
next
  case (Cons ic ics)
  show ?case
  proof (cases "rejects table (chunk_row today ic)")
    case True
    then have "foldl (insert_step rejects today) (table, n) ics = (table', n')"
      using Cons.prems by (simp add: insert_step_rejected insert_step_accepted)
    from Cons.IH [OF this] obtain added where
      "table' = table @ added" "n' = n + length added" "length added \<le> length ics"
      "set added \<subseteq> chunk_row today ` set ics"
      "\<forall>ic \<in> set ics. (\<forall>t. \<not> rejects t (chunk_row today ic)) \<longrightarrow> chunk_row today ic \<in> set added"
      by blast
    then show ?thesis using True by (intro exI [of _ added]) auto
  next
    case False
    then have "foldl (insert_step rejects today) (table @ [chunk_row today ic], n + 1) ics = (table', n')"
      using Cons.prems by (simp add: insert_step_rejected insert_step_accepted)
    from Cons.IH [OF this] obtain added where
      "table' = (table @ [chunk_row today ic]) @ added" "n' = n + 1 + length added"
      "length added \<le> length ics"
      "set added \<subseteq> chunk_row today ` set ics"
      "\<forall>ic \<in> set ics. (\<forall>t. \<not> rejects t (chunk_row today ic)) \<longrightarrow> chunk_row today ic \<in> set added"
      by blast
    then show ?thesis by (intro exI [of _ "chunk_row today ic # added"]) auto
  qed
qed

text \<open>
  Claim C8. In \<^const>\<open>insert_observations\<close> a failing insertion does not abort the
  batch. The final table is the old one followed by the rows inserted; the count reported
  is the number of those rows, at most the number of chunks (and less when an insertion
  failed); and every chunk is still attempted, whatever failed before it: a chunk whose
  row the table rejects in no state is among the rows inserted.
\<close>

theorem insert_observations_partial_failure:
  assumes "insert_observations rejects today table chunks False = (table', rep)"
  shows "\<exists>added. table' = table @ added \<and> rep = Inserted (length added) \<and>
           length added \<le> length chunks \<and>
           (\<forall>ic \<in> set (enumerate 0 chunks).
              (\<forall>t. \<not> rejects t (chunk_row today ic)) \<longrightarrow> chunk_row today ic \<in> set added)"
proof -
  obtain t n where f: "foldl (insert_step rejects today) (table, 0) (enumerate 0 chunks) = (t, n)"
    by (cases "foldl (insert_step rejects today) (table, 0) (enumerate 0 chunks)")
  with assms have e: "table' = t" "rep = Inserted n"
    by (simp_all add: insert_observations_def)
  from insert_fold [OF f] obtain added where
    "t = table @ added" "n = 0 + length added" "length added \<le> length (enumerate 0 chunks)"
    "\<forall>ic \<in> set (enumerate 0 chunks).
       (\<forall>t. \<not> rejects t (chunk_row today ic)) \<longrightarrow> chunk_row today ic \<in> set added"
    by blast
  then show ?thesis using e by (intro exI [of _ added]) simp
qed

theorem insert_observations_partial_failure_witness:
  "insert_observations (\<lambda>t r. raw_text r = ''b'') (\<lambda>i. ''20240101'') []
       [(''a'', ''s''), (''b'', ''s''), (''c'', ''s'')] False
     = ([chunk_row (\<lambda>i. ''20240101'') (0, ''a'', ''s''), chunk_row (\<lambda>i. ''20240101'') (2, ''c'', ''s'')],
        Inserted 2) \<and>
   (\<exists>added. [chunk_row (\<lambda>i. ''20240101'') (0, ''a'', ''s''), chunk_row (\<lambda>i. ''20240101'') (2, ''c'', ''s'')]
              = [] @ added \<and>
      Inserted 2 = Inserted (length added) \<and>
      length added \<le> length [(''a'', ''s''), (''b'', ''s''), (''c'', ''s'')] \<and>
      length added < length [(''a'', ''s''), (''b'', ''s''), (''c'', ''s'')] \<and>
      chunk_row (\<lambda>i. ''20240101'') (2, ''c'', ''s'') \<in> set added)"
proof -
  let ?rej = "\<lambda>(t::observation list) r. raw_text r = ''b''"
  let ?today = "\<lambda>i::nat. ''20240101''"
  let ?chunks = "[(''a'', ''s''), (''b'', ''s''), (''c'', ''s'')]"
  let ?t = "[chunk_row ?today (0, ''a'', ''s''), chunk_row ?today (2, ''c'', ''s'')]"
  have ev: "insert_observations ?rej ?today [] ?chunks False = (?t, Inserted 2)"
    by (simp add: insert_observations_def insert_step_def db_execute_def chunk_row_def enumerate_eq_zip upt_rec)
  from insert_observations_partial_failure [OF ev] obtain added where
    a: "?t = [] @ added" "Inserted 2 = Inserted (length added)" "length added \<le> length ?chunks"
    by blast
  from a(1) have "added = ?t" by simp
  then have "length added < length ?chunks" "chunk_row ?today (2, ''c'', ''s'') \<in> set added" by simp_all
  with a ev show ?thesis by blast
qed

section \<open>Session logs: which messages are kept\<close>


section \<open>Paragraphs and trimming\<close>

lemma split_nn_not_Nil: "split_nn s \<noteq> []"
  by (induction s rule: split_nn.induct) (auto split: list.splits)

lemma join_Cons: "join sep (x # xs) = x @ concat (map ((@) sep) xs)"
  by (induction xs arbitrary: x) auto

lemma join_append:
  "xs \<noteq> [] \<Longrightarrow> ys \<noteq> [] \<Longrightarrow> join sep (xs @ ys) = join sep xs @ sep @ join sep ys"
  by (cases xs; cases ys) (simp_all add: join_Cons)

lemma join_split_nn: "join [nl, nl] (split_nn s) = s"
proof (induction s rule: split_nn.induct)
  case 1
  then show ?case by simp
next
  case (2 c)
  then show ?case by simp
next
  case (3 a b cs)
  show ?case
  proof (cases "a = nl \<and> b = nl")
    case True
    then have "join [nl, nl] (split_nn cs) = cs" using 3 by simp
    moreover obtain r rs where "split_nn cs = r # rs"
      using split_nn_not_Nil [of cs] by (cases "split_nn cs") auto
    ultimately show ?thesis using True by simp
  next
    case False
    then have ih: "join [nl, nl] (split_nn (b # cs)) = b # cs" using 3 by simp
    obtain p ps where s: "split_nn (b # cs) = p # ps"
      using split_nn_not_Nil [of "b # cs"] by (cases "split_nn (b # cs)") auto
    have j: "join [nl, nl] ((a # p) # ps) = a # join [nl, nl] (p # ps)"
      by (simp add: join_Cons)
    have e: "split_nn (a # b # cs) = (a # p) # ps" using False s by auto
    show ?thesis unfolding e j using ih s by simp
  qed
qed

lemma length_join_member: "p \<in> set ps \<Longrightarrow> length p \<le> length (join sep ps)"
proof (induction ps)
  case Nil
  then show ?case by simp
next
  case (Cons x xs)
  show ?case
  proof (cases xs)
    case Nil
    then show ?thesis using Cons.prems by simp
  next
    case (Cons y ys)
    then have "join sep (x # xs) = x @ sep @ join sep xs" by simp
    then show ?thesis using Cons.IH Cons.prems by auto
  qed
qed

lemma paragraph_length: "p \<in> set (split_nn s) \<Longrightarrow> length p \<le> length s"
  using length_join_member [of p "split_nn s" "[nl, nl]"] by (simp add: join_split_nn)

lemma length_strip_le: "length (strip s) \<le> length s"
proof -
  have "length (strip s) \<le> length (dropWhile isspace s)"
    unfolding strip_def using length_dropWhile_le [of isspace "rev (dropWhile isspace s)"] by simp
  also have "\<dots> \<le> length s" by (rule length_dropWhile_le)
  finally show ?thesis .
qed

lemma strip_id:
  assumes "s \<noteq> []" and "\<not> isspace (hd s)" and "\<not> isspace (last s)"
  shows "strip s = s"
proof -
  have a: "dropWhile isspace s = s" using assms(1,2) by (cases s) auto
  have "dropWhile isspace (rev s) = rev s"
    using assms(1,3) by (simp add: dropWhile_eq_self_iff hd_rev)
  then show ?thesis by (simp add: strip_def a)
qed

lemma length_dropWhile_less:
  "xs \<noteq> [] \<Longrightarrow> P (hd xs) \<Longrightarrow> length (dropWhile P xs) < length xs"
  using length_dropWhile_le [of P "tl xs"] by (cases xs) auto

lemma strip_fixed:
  assumes "strip s = s" and "s \<noteq> []"
  shows "\<not> isspace (hd s) \<and> \<not> isspace (last s)"
proof -
  have 1: "\<not> isspace (hd s)"
  proof
    assume "isspace (hd s)"
    then have "length (dropWhile isspace s) < length s"
      using assms(2) by (rule length_dropWhile_less [rotated])
    moreover have "length (strip s) \<le> length (dropWhile isspace s)"
      unfolding strip_def using length_dropWhile_le [of isspace "rev (dropWhile isspace s)"] by simp
    ultimately show False using assms(1) by simp
  qed
  then have d: "dropWhile isspace s = s" using assms(2) by (cases s) auto
  have 2: "\<not> isspace (last s)"
  proof
    assume "isspace (last s)"
    then have "isspace (hd (rev s))" using assms(2) by (simp add: hd_rev)
    then have "length (dropWhile isspace (rev s)) < length (rev s)"
      using assms(2) by (intro length_dropWhile_less) auto
    then have "length (strip s) < length s" by (simp add: strip_def d)
    then show False using assms(1) by simp
  qed
  from 1 2 show ?thesis by simp
qed

lemma strip_join2:
  assumes "strip x = x" "x \<noteq> []" "strip y = y" "y \<noteq> []"
  shows "strip (x @ sep @ y) = x @ sep @ y"
proof -
  have "hd (x @ sep @ y) = hd x" "last (x @ sep @ y) = last y" using assms by simp_all
  then show ?thesis using strip_fixed [OF assms(1,2)] strip_fixed [OF assms(3,4)] assms(2)
    by (intro strip_id) auto
qed

section \<open>The loop of the chunker\<close>

lemma chunk_loop_Nil [simp]: "chunk_loop source cs st [] = st"
  by (simp add: chunk_loop_def)

lemma chunk_loop_Cons [simp]:
  "chunk_loop source cs st (p # ps) = chunk_loop source cs (chunk_step source cs st p) ps"
  by (simp add: chunk_loop_def)

lemma chunk_loop_append:
  "chunk_loop source cs st (ps @ qs) = chunk_loop source cs (chunk_loop source cs st ps) qs"
  by (simp add: chunk_loop_def)

lemma chunk_step_chunks:
  "chunk_step source cs (chunks, cur) p =
     (chunks @ fst (chunk_step source cs ([], cur) p), snd (chunk_step source cs ([], cur) p))"
  by (simp add: chunk_step_def)

lemma chunk_loop_chunks:
  "chunk_loop source cs (chunks, cur) ps =
     (chunks @ fst (chunk_loop source cs ([], cur) ps), snd (chunk_loop source cs ([], cur) ps))"
proof (induction ps arbitrary: chunks cur)
  case Nil
  then show ?case by simp
next
  case (Cons p ps)
  obtain c1 cur1 where s1: "chunk_step source cs ([], cur) p = (c1, cur1)"
    by (cases "chunk_step source cs ([], cur) p")
  then have s2: "chunk_step source cs (chunks, cur) p = (chunks @ c1, cur1)"
    using chunk_step_chunks [of source cs chunks cur p] by simp
  show ?case
    using Cons.IH [of "chunks @ c1" cur1] Cons.IH [of c1 cur1] by (simp add: s1 s2)
qed

lemma chunk_finish_chunks:
  "chunk_finish source (chunks, cur) = chunks @ chunk_finish source ([], cur)"
  by (simp add: chunk_finish_def)

lemma chunk_loop_bounded:
  assumes "\<forall>p \<in> set ps. int (length p) \<le> cs"
    and "\<forall>c \<in> set chunks. int (length (fst c)) \<le> cs"
    and "int (length cur) \<le> cs"
    and "chunk_loop source cs (chunks, cur) ps = (chunks', cur')"
  shows "(\<forall>c \<in> set chunks'. int (length (fst c)) \<le> cs) \<and> int (length cur') \<le> cs"
  using assms
proof (induction ps arbitrary: chunks cur)
  case Nil
  then show ?case by simp
next
  case (Cons p ps)
  obtain c1 cur1 where s1: "chunk_step source cs (chunks, cur) p = (c1, cur1)"
    by (cases "chunk_step source cs (chunks, cur) p")
  have p: "int (length p) \<le> cs" using Cons.prems(1) by simp
  have sl: "int (length (strip cur)) \<le> cs"
    using length_strip_le [of cur] Cons.prems(3) by linarith
  have b1: "\<forall>c \<in> set c1. int (length (fst c)) \<le> cs"
    using s1 Cons.prems(2) sl by (auto simp: chunk_step_def split: if_splits)
  have b2: "int (length cur1) \<le> cs"
    using s1 p Cons.prems(3) by (auto simp: chunk_step_def split: if_splits)
  show ?case
    using Cons.IH [OF _ b1 b2] Cons.prems(1,4) s1 by simp
qed

lemma chunk_text_bounded:
  assumes "\<forall>p \<in> set (split_nn text). int (length p) \<le> cs"
  shows "\<forall>c \<in> set (chunk_text text source cs). int (length (fst c)) \<le> cs"
proof (cases "int (length text) \<le> cs")
  case True
  then show ?thesis by (simp add: chunk_text_def)
next
  case False
  obtain p where "p \<in> set (split_nn text)"
    using split_nn_not_Nil [of "text"] by (cases "split_nn text") auto
  then have cs0: "0 \<le> cs" using assms by fastforce
  obtain chunks cur where l: "chunk_loop source cs ([], []) (split_nn text) = (chunks, cur)"
    by (cases "chunk_loop source cs ([], []) (split_nn text)")
  from chunk_loop_bounded [OF assms _ _ l] cs0
  have b: "(\<forall>c \<in> set chunks. int (length (fst c)) \<le> cs)" "int (length cur) \<le> cs" by simp_all
  have "int (length (strip cur)) \<le> cs" using length_strip_le [of cur] b(2) by linarith
  then show ?thesis using False l b(1) by (auto simp: chunk_text_def chunk_finish_def)
qed

section \<open>Chunks and paragraphs\<close>

lemma join_merge:
  "join sep (xs @ (a @ sep @ b) # ys) = join sep (xs @ a # b # ys)"
  by (cases xs) (simp_all add: join_Cons)

lemma chunk_loop_rejoin:
  assumes "\<forall>p \<in> set ps. p \<noteq> [] \<and> strip p = p" and "strip cur = cur"
  shows "join [nl, nl] (map fst (chunk_finish source (chunk_loop source cs (chunks, cur) ps)))
         = join [nl, nl] (map fst chunks @ (if cur = [] then [] else [cur]) @ ps)"
  using assms
proof (induction ps arbitrary: chunks cur)
  case Nil
  then show ?case by (simp add: chunk_finish_def)
next
  case (Cons p ps)
  have p: "p \<noteq> []" "strip p = p" using Cons.prems(1) by simp_all
  have rest: "\<forall>p \<in> set ps. p \<noteq> [] \<and> strip p = p" using Cons.prems(1) by simp
  show ?case
  proof (cases "cur = []")
    case True
    then have "chunk_step source cs (chunks, cur) p = (chunks, p)" by (simp add: chunk_step_def)
    then show ?thesis using Cons.IH [OF rest p(2), of chunks] True p(1) by simp
  next
    case False
    show ?thesis
    proof (cases "int (length cur) + int (length p) + 2 > cs")
      case True
      then have "chunk_step source cs (chunks, cur) p = (chunks @ [(cur, source)], p)"
        using False Cons.prems(2) by (simp add: chunk_step_def)
      then show ?thesis
        using Cons.IH [OF rest p(2), of "chunks @ [(cur, source)]"] False p(1) by simp
    next
      case nofl: False
      then have s: "chunk_step source cs (chunks, cur) p = (chunks, cur @ [nl, nl] @ p)"
        using False by (simp add: chunk_step_def)
      have t: "strip (cur @ [nl, nl] @ p) = cur @ [nl, nl] @ p"
        using strip_join2 [OF Cons.prems(2) False p(2) p(1)] .
      have "join [nl, nl] (map fst chunks @ (cur @ [nl, nl] @ p) # ps)
            = join [nl, nl] (map fst chunks @ cur # p # ps)"
        by (rule join_merge)
      then show ?thesis
        using Cons.IH [OF rest t, of chunks] False s by simp
    qed
  qed
qed

lemma join_ends:
  assumes "ps \<noteq> []" and "\<forall>p \<in> set ps. p \<noteq> []"
  shows "join sep ps \<noteq> [] \<and> hd (join sep ps) = hd (hd ps) \<and> last (join sep ps) = last (last ps)"
  using assms
proof (induction ps)
  case Nil
  then show ?case by simp
next
  case (Cons x xs)
  show ?case
  proof (cases xs)
    case Nil
    then show ?thesis using Cons.prems by simp
  next
    case (Cons y ys)
    then have j: "join sep (x # xs) = x @ sep @ join sep xs" by simp
    have "join sep xs \<noteq> []" "last (join sep xs) = last (last xs)"
      using Cons.IH Cons.prems \<open>xs = y # ys\<close> by auto
    then show ?thesis using j Cons.prems \<open>xs = y # ys\<close> by auto
  qed
qed

lemma trimmed_paragraphs_text:
  assumes "\<forall>p \<in> set (split_nn s). p \<noteq> [] \<and> strip p = p"
  shows "strip s = s"
proof -
  let ?ps = "split_nn s"
  have ne: "?ps \<noteq> []" by (rule split_nn_not_Nil)
  have all: "\<forall>p \<in> set ?ps. p \<noteq> []" using assms by simp
  from join_ends [OF ne all, of "[nl, nl]"]
  have e: "s \<noteq> []" "hd s = hd (hd ?ps)" "last s = last (last ?ps)"
    by (simp_all add: join_split_nn)
  have "hd ?ps \<in> set ?ps" "last ?ps \<in> set ?ps" using ne by simp_all
  then have "\<not> isspace (hd (hd ?ps))" "\<not> isspace (last (last ?ps))"
    using assms strip_fixed by blast+
  then show ?thesis using e by (intro strip_id) simp_all
qed

lemma chunk_finish_empty [simp]: "chunk_finish source ([], []) = []"
  by (simp add: chunk_finish_def strip_def)

lemma after_oversized:
  assumes "p \<noteq> []" and "cs < int (length p)"
  shows "chunk_finish source (chunk_loop source cs (chunks, p) qs)
         = chunks @ (if qs = [] \<and> strip p = [] then [] else [(strip p, source)])
           @ chunk_finish source (chunk_loop source cs ([], []) qs)"
proof (cases qs)
  case Nil
  then show ?thesis by (simp add: chunk_finish_def strip_def)
next
  case (Cons q qs')
  have 1: "chunk_step source cs (chunks, p) q = (chunks @ [(strip p, source)], q)"
    using assms by (simp add: chunk_step_def)
  have 2: "chunk_step source cs ([], []) q = ([], q)" by (simp add: chunk_step_def)
  obtain c r where l: "chunk_loop source cs ([], q) qs' = (c, r)"
    by (cases "chunk_loop source cs ([], q) qs'")
  have "chunk_loop source cs (chunks @ [(strip p, source)], q) qs' = ((chunks @ [(strip p, source)]) @ c, r)"
    using chunk_loop_chunks [of source cs "chunks @ [(strip p, source)]" q qs'] l by simp
  then show ?thesis
    using Cons 1 2 l chunk_finish_chunks [of source "(chunks @ [(strip p, source)]) @ c" r]
      chunk_finish_chunks [of source c r]
    by simp
qed

text \<open>
  Claim C1, as amended. For every text whose paragraphs (the segments between double
  newlines) are no longer than the limit, every chunk that \<^const>\<open>chunk_text\<close> emits has
  a text no longer than the limit; and when moreover no paragraph is empty or has
  leading or trailing whitespace, the chunk texts rejoined by the separator are the
  trimmed input exactly. Every chunk is trimmed when it is flushed, so whitespace next to
  a chunk boundary is not kept: the counterexample below is a text whose first paragraph
  ends with a space.
\<close>

theorem chunk_text_paragraphs:
  assumes "\<forall>p \<in> set (split_nn text). int (length p) \<le> chunk_size"
  shows "(\<forall>c \<in> set (chunk_text text source chunk_size). int (length (fst c)) \<le> chunk_size) \<and>
         ((\<forall>p \<in> set (split_nn text). p \<noteq> [] \<and> strip p = p) \<longrightarrow>
            join [nl, nl] (map fst (chunk_text text source chunk_size)) = strip text)"
proof (intro conjI impI)
  show "\<forall>c \<in> set (chunk_text text source chunk_size). int (length (fst c)) \<le> chunk_size"
    using assms by (rule chunk_text_bounded)
next
  assume tr: "\<forall>p \<in> set (split_nn text). p \<noteq> [] \<and> strip p = p"
  then have st: "strip text = text" by (rule trimmed_paragraphs_text)
  show "join [nl, nl] (map fst (chunk_text text source chunk_size)) = strip text"
  proof (cases "int (length text) \<le> chunk_size")
    case True
    then show ?thesis using st by (simp add: chunk_text_def)
  next
    case False
    have "strip [] = []" by (simp add: strip_def)
    from chunk_loop_rejoin [OF tr this, of source chunk_size "[]"]
    show ?thesis using False st by (simp add: chunk_text_def join_split_nn)
  qed
qed

theorem chunk_text_paragraphs_witness:
  "chunk_text (''ab'' @ [nl, nl] @ ''cd'' @ [nl, nl] @ ''ef'') ''s'' 6
     = [(''ab'' @ [nl, nl] @ ''cd'', ''s''), (''ef'', ''s'')] \<and>
   int (length (''ab'' @ [nl, nl] @ ''cd'')) \<le> 6 \<and> int (length ''ef'') \<le> 6 \<and>
   join [nl, nl] (map fst (chunk_text (''ab'' @ [nl, nl] @ ''cd'' @ [nl, nl] @ ''ef'') ''s'' 6))
     = strip (''ab'' @ [nl, nl] @ ''cd'' @ [nl, nl] @ ''ef'')"
proof -
  let ?t = "''ab'' @ [nl, nl] @ ''cd'' @ [nl, nl] @ ''ef''"
  have sp: "split_nn ?t = [''ab'', ''cd'', ''ef'']" by simp
  have h1: "\<forall>p \<in> set (split_nn ?t). int (length p) \<le> 6" unfolding sp by simp
  have h2: "\<forall>p \<in> set (split_nn ?t). p \<noteq> [] \<and> strip p = p"
    unfolding sp by (simp add: strip_def isspace_def)
  have ev: "chunk_text ?t ''s'' 6 = [(''ab'' @ [nl, nl] @ ''cd'', ''s''), (''ef'', ''s'')]"
    by (simp add: chunk_text_def chunk_step_def chunk_finish_def strip_def isspace_def)
  note r = chunk_text_paragraphs [OF h1, of "''s''"]
  from r have b: "\<forall>c \<in> set (chunk_text ?t ''s'' 6). int (length (fst c)) \<le> 6" by (rule conjunct1)
  from r h2 have j: "join [nl, nl] (map fst (chunk_text ?t ''s'' 6)) = strip ?t" by blast
  from b have "int (length (''ab'' @ [nl, nl] @ ''cd'')) \<le> 6" "int (length ''ef'') \<le> 6"
    unfolding ev by simp_all
  with ev j show ?thesis by blast
qed

theorem chunk_text_rejoin_counterexample:
  "split_nn (''ab '' @ [nl, nl] @ ''cd'') = [''ab '', ''cd''] \<and>
   int (length ''ab '') \<le> 5 \<and> int (length ''cd'') \<le> 5 \<and>
   chunk_text (''ab '' @ [nl, nl] @ ''cd'') ''s'' 5 = [(''ab'', ''s''), (''cd'', ''s'')] \<and>
   strip (''ab '' @ [nl, nl] @ ''cd'') = ''ab '' @ [nl, nl] @ ''cd'' \<and>
   join [nl, nl] (map fst (chunk_text (''ab '' @ [nl, nl] @ ''cd'') ''s'' 5))
     \<noteq> strip (''ab '' @ [nl, nl] @ ''cd'')"
  by (simp add: chunk_text_def chunk_step_def chunk_finish_def strip_def isspace_def)

text \<open>
  Claim C3, as amended. A paragraph longer than the limit is never split and never merged
  with its neighbours: the chunks are those built from the paragraphs before it, then the
  paragraph by itself, trimmed of its surrounding whitespace (it is left out only when it
  is the last paragraph and consists of whitespace), then those built from the paragraphs
  after it. When the paragraph has no surrounding whitespace the chunk is the paragraph
  itself, longer than the limit.
\<close>

theorem oversized_paragraph_alone:
  assumes "split_nn text = ps @ p # qs" and "chunk_size < int (length p)" and "0 \<le> chunk_size"
  shows "(case chunk_loop source chunk_size ([], []) ps of
            (chunks, current) \<Rightarrow>
              chunk_text text source chunk_size
                = chunks @ (if current = [] then [] else [(strip current, source)])
                  @ (if qs = [] \<and> strip p = [] then [] else [(strip p, source)])
                  @ chunk_finish source (chunk_loop source chunk_size ([], []) qs)) \<and>
         (strip p = p \<longrightarrow> (p, source) \<in> set (chunk_text text source chunk_size) \<and>
            chunk_size < int (length (fst (p, source))))"
proof -
  obtain chunks current where l: "chunk_loop source chunk_size ([], []) ps = (chunks, current)"
    by (cases "chunk_loop source chunk_size ([], []) ps")
  have pne: "p \<noteq> []" using assms(2,3) by auto
  have "p \<in> set (split_nn text)" using assms(1) by simp
  then have "length p \<le> length text" by (rule paragraph_length)
  then have long: "\<not> int (length text) \<le> chunk_size" using assms(2) by linarith
  have st: "chunk_step source chunk_size (chunks, current) p
            = (chunks @ (if current = [] then [] else [(strip current, source)]), p)"
    using assms(2) by (simp add: chunk_step_def)
  have "chunk_loop source chunk_size ([], []) (ps @ p # qs)
        = chunk_loop source chunk_size
            (chunks @ (if current = [] then [] else [(strip current, source)]), p) qs"
    by (simp add: chunk_loop_append l st)
  then have main: "chunk_text text source chunk_size
                = chunks @ (if current = [] then [] else [(strip current, source)])
                  @ (if qs = [] \<and> strip p = [] then [] else [(strip p, source)])
                  @ chunk_finish source (chunk_loop source chunk_size ([], []) qs)"
    using long assms(1) after_oversized [OF pne assms(2), of source
        "chunks @ (if current = [] then [] else [(strip current, source)])" qs]
    by (simp add: chunk_text_def)
  have "strip p = p \<longrightarrow> (p, source) \<in> set (chunk_text text source chunk_size)"
    using main pne by auto
  then show ?thesis using main l assms(2) by simp
qed

theorem oversized_paragraph_alone_witness:
  "chunk_text (''ab'' @ [nl, nl] @ ''abcdefgh'' @ [nl, nl] @ ''cd'') ''s'' 5
     = [(''ab'', ''s''), (''abcdefgh'', ''s''), (''cd'', ''s'')] \<and>
   (''abcdefgh'', ''s'') \<in> set (chunk_text (''ab'' @ [nl, nl] @ ''abcdefgh'' @ [nl, nl] @ ''cd'') ''s'' 5) \<and>
   (5::int) < int (length ''abcdefgh'')"
proof -
  let ?t = "''ab'' @ [nl, nl] @ ''abcdefgh'' @ [nl, nl] @ ''cd''"
  have h1: "split_nn ?t = [''ab''] @ ''abcdefgh'' # [''cd'']" by simp
  have h2: "(5::int) < int (length ''abcdefgh'')" by simp
  have h3: "(0::int) \<le> 5" by simp
  have tr: "strip ''abcdefgh'' = ''abcdefgh''" by (simp add: strip_def isspace_def)
  note r = oversized_paragraph_alone [OF h1 h2 h3, of "''s''"]
  from r tr have m: "(''abcdefgh'', ''s'') \<in> set (chunk_text ?t ''s'' 5)" by blast
  have a: "chunk_loop ''s'' 5 ([], []) [''ab''] = ([], ''ab'')" by (simp add: chunk_step_def)
  have b: "chunk_finish ''s'' (chunk_loop ''s'' 5 ([], []) [''cd'']) = [(''cd'', ''s'')]"
    by (simp add: chunk_step_def chunk_finish_def strip_def isspace_def)
  have c: "strip ''ab'' = ''ab''" by (simp add: strip_def isspace_def)
  from r have "chunk_text ?t ''s'' 5 = [(''ab'', ''s''), (''abcdefgh'', ''s''), (''cd'', ''s'')]"
    unfolding a b by (simp add: tr c)
  with m h2 show ?thesis by blast
qed

theorem oversized_paragraph_counterexample:
  "split_nn ''a     '' = [''a     ''] \<and> (5::int) < int (length ''a     '') \<and>
   chunk_text ''a     '' ''s'' 5 = [(''a'', ''s'')] \<and> \<not> (5::int) < int (length ''a'') \<and>
   split_nn ''      '' = [''      ''] \<and> (5::int) < int (length ''      '') \<and>
   chunk_text ''      '' ''s'' 5 = []"
  by (simp add: chunk_text_def chunk_step_def chunk_finish_def strip_def isspace_def)

section \<open>The example of three paragraphs\<close>

lemma split_nn_plain_prefix:
  "nl \<notin> set p \<Longrightarrow> split_nn (p @ nl # nl # rest) = p # split_nn rest"
proof (induction p)
  case Nil
  then show ?case by simp
next
  case (Cons a p)
  obtain b cs where e: "p @ nl # nl # rest = b # cs" by (cases p) auto
  have "split_nn (b # cs) = p # split_nn rest" using Cons e by simp
  moreover have "a \<noteq> nl" using Cons.prems by auto
  ultimately have "split_nn (a # b # cs) = (a # p) # split_nn rest" by simp
  then show ?case using e by simp
qed

lemma split_nn_plain: "nl \<notin> set p \<Longrightarrow> split_nn p = [p]"
proof (induction p)
  case Nil
  then show ?case by simp
next
  case (Cons a p)
  show ?case
  proof (cases p)
    case Nil
    then show ?thesis by simp
  next
    case (Cons b cs)
    have "a \<noteq> nl" using Cons.prems by auto
    moreover have "split_nn (b # cs) = [b # cs]" using Cons.IH Cons.prems Cons by simp
    ultimately show ?thesis using Cons by simp
  qed
qed

section \<open>Cleaning a cleaned text\<close>

lemma contains_sublist: "contains pat s \<longleftrightarrow> sublist pat s"
  by (induction s) (auto simp: sublist_Cons_right)

lemma sublist_strip: "sublist (strip s) s"
proof -
  have "sublist (strip s) (dropWhile isspace s)"
    unfolding strip_def by (simp add: sublist_rev_left)
  moreover have "sublist (dropWhile isspace s) s" by simp
  ultimately show ?thesis by (rule sublist_order.order_trans)
qed

lemma strip_ends:
  assumes "strip s \<noteq> []"
  shows "\<not> isspace (hd (strip s)) \<and> \<not> isspace (last (strip s))"
proof -
  let ?v = "dropWhile isspace s"
  let ?w = "dropWhile isspace (rev ?v)"
  have w: "?w \<noteq> []" using assms by (simp add: strip_def)
  then have "\<not> isspace (hd ?w)" by (rule hd_dropWhile)
  then have l: "\<not> isspace (last (strip s))" using w by (simp add: strip_def last_rev)
  have v: "?v \<noteq> []" using w by (metis dropWhile.simps(1) rev.simps(1))
  then have hv: "\<not> isspace (hd ?v)" by (rule hd_dropWhile)
  have "rev ?v = takeWhile isspace (rev ?v) @ ?w" by simp
  then have "?v = rev ?w @ rev (takeWhile isspace (rev ?v))"
    by (metis rev_append rev_rev_ident)
  then have "hd ?v = hd (rev ?w)" using w by (metis hd_append2 rev_is_Nil_conv)
  then have "\<not> isspace (hd (strip s))" using hv by (simp add: strip_def)
  with l show ?thesis by simp
qed

lemma strip_strip: "strip (strip s) = strip s"
proof (cases "strip s = []")
  case True
  have "strip [] = []" by (simp add: strip_def)
  then show ?thesis by (simp only: True)
next
  case False
  then show ?thesis using strip_ends [OF False] by (intro strip_id) simp_all
qed

lemma re_sub_no_match:
  "\<forall>i \<le> length s. m (drop i s) = None \<Longrightarrow> re_sub m repl s = s"
proof (induction s)
  case Nil
  then show ?case by simp
next
  case (Cons c cs)
  have "m (drop 0 (c # cs)) = None" using Cons.prems by blast
  then have 0: "m (c # cs) = None" by simp
  have "\<forall>i \<le> length cs. m (drop i cs) = None"
  proof (intro allI impI)
    fix i assume "i \<le> length cs"
    then have "m (drop (Suc i) (c # cs)) = None" using Cons.prems by auto
    then show "m (drop i cs) = None" by simp
  qed
  then show ?case using Cons.IH 0 by simp
qed

text \<open>None of the four patterns of \<^const>\<open>clean_text\<close> matches the empty string.\<close>

lemma blocks_not_empty:
  "match_block kgc_open kgc_close s \<noteq> Some 0"
  "match_metadata s \<noteq> Some 0"
  "match_block fr_open fr_close s \<noteq> Some 0"
  by (auto simp: match_block_def match_metadata_def kgc_open_def fr_open_def
      fence_open_def Let_def split: option.splits)

lemma newlines_not_empty: "match_newlines s \<noteq> Some 0"
  by (cases s) (auto simp: match_newlines_def)

lemma match_newlines_needs_run:
  "\<not> contains [nl, nl, nl] s \<Longrightarrow> i \<le> length s \<Longrightarrow> match_newlines (drop i s) = None"
  by (auto simp: match_newlines_def contains_iff)

lemma lead_Nil [simp]: "lead [] = 0"
  by (simp add: lead_def)

lemma lead_Cons: "lead (c # cs) = (if c = nl then Suc (lead cs) else 0)"
  by (simp add: lead_def)

lemma lead_zero: "lead s = 0 \<longleftrightarrow> s = [] \<or> hd s \<noteq> nl"
  by (cases s) (simp_all add: lead_Cons)

lemma lead_rest: "lead (dropWhile (\<lambda>c. c = nl) s) = 0"
proof (cases "dropWhile (\<lambda>c. c = nl) s = []")
  case True
  then show ?thesis by (simp only: lead_Nil)
next
  case False
  then have "hd (dropWhile (\<lambda>c. c = nl) s) \<noteq> nl" by (rule hd_dropWhile)
  then show ?thesis by (simp only: lead_zero) simp
qed

lemma drop_lead: "drop (lead s) s = dropWhile (\<lambda>c. c = nl) s"
  unfolding lead_def by (rule dropWhile_eq_drop [symmetric])

lemma length_rest: "0 < lead s \<Longrightarrow> length (dropWhile (\<lambda>c. c = nl) s) < length s"
proof -
  assume "0 < lead s"
  then have "length (drop (lead s) s) < length s" by (cases s) (auto simp: lead_Cons split: if_splits)
  then show ?thesis by (simp only: drop_lead)
qed

lemma prefix_run: "prefix [nl, nl, nl] s \<longleftrightarrow> 3 \<le> lead s"
proof (cases s)
  case Nil
  then show ?thesis by simp
next
  case s1: (Cons a s1)
  show ?thesis
  proof (cases s1)
    case Nil
    then show ?thesis using s1 by (simp add: lead_Cons)
  next
    case s2: (Cons b s2)
    show ?thesis
    proof (cases s2)
      case Nil
      then show ?thesis using s1 s2 by (simp add: lead_Cons)
    next
      case (Cons c s3)
      then show ?thesis using s1 s2 by (auto simp: lead_Cons)
    qed
  qed
qed

lemma match_newlines_lead:
  "match_newlines s = (if 3 \<le> lead s then Some (lead s) else None)"
  by (simp add: match_newlines_def prefix_run lead_def)

lemma collapse_match:
  assumes "3 \<le> lead s"
  shows "re_sub match_newlines [nl, nl] s
         = nl # nl # re_sub match_newlines [nl, nl] (dropWhile (\<lambda>c. c = nl) s)"
proof -
  obtain c cs where s: "s = c # cs" using assms by (cases s) auto
  have m: "match_newlines (c # cs) = Some (lead s)" using assms by (simp add: match_newlines_lead s)
  have "re_sub match_newlines [nl, nl] (c # cs)
        = [nl, nl] @ re_sub match_newlines [nl, nl] (drop (lead s) (c # cs))"
    using assms by (simp only: re_sub.simps m) simp
  then show ?thesis by (simp add: drop_lead s [symmetric])
qed

lemma collapse_copy:
  assumes "lead (c # cs) < 3"
  shows "re_sub match_newlines [nl, nl] (c # cs) = c # re_sub match_newlines [nl, nl] cs"
proof -
  have "match_newlines (c # cs) = None" using assms by (simp add: match_newlines_lead)
  then show ?thesis by simp
qed

lemma lead_collapse: "lead (re_sub match_newlines [nl, nl] s) = min 2 (lead s)"
proof (induction s rule: length_induct)
  case (1 s)
  show ?case
  proof (cases s)
    case Nil
    then show ?thesis by simp
  next
    case (Cons c cs)
    show ?thesis
    proof (cases "3 \<le> lead s")
      case True
      let ?r = "dropWhile (\<lambda>c. c = nl) s"
      have "length ?r < length s" using True by (intro length_rest) simp
      then have "lead (re_sub match_newlines [nl, nl] ?r) = min 2 (lead ?r)" using 1 by blast
      then have "lead (re_sub match_newlines [nl, nl] ?r) = 0" by (simp add: lead_rest)
      then show ?thesis using True by (simp add: collapse_match lead_Cons)
    next
      case False
      then have lt: "lead (c # cs) < 3" using Cons by simp
      have "lead (re_sub match_newlines [nl, nl] cs) = min 2 (lead cs)" using 1 Cons by simp
      then show ?thesis using lt unfolding Cons collapse_copy [OF lt]
        by (auto simp: lead_Cons split: if_splits)
    qed
  qed
qed

lemma collapse_no_run: "\<not> sublist [nl, nl, nl] (re_sub match_newlines [nl, nl] s)"
proof (induction s rule: length_induct)
  case (1 s)
  show ?case
  proof (cases s)
    case Nil
    then show ?thesis by simp
  next
    case (Cons c cs)
    show ?thesis
    proof (cases "3 \<le> lead s")
      case True
      let ?r = "dropWhile (\<lambda>c. c = nl) s"
      let ?o = "re_sub match_newlines [nl, nl] ?r"
      have "length ?r < length s" using True by (intro length_rest) simp
      then have ih: "\<not> sublist [nl, nl, nl] ?o" using 1 by blast
      have lo: "lead ?o = 0" by (simp add: lead_collapse lead_rest)
      have "\<not> prefix [nl, nl, nl] (nl # nl # ?o)" "\<not> prefix [nl, nl, nl] (nl # ?o)"
        using lo by (simp_all only: prefix_run lead_Cons) simp_all
      then have "\<not> sublist [nl, nl, nl] (nl # nl # ?o)"
        using ih by (simp only: sublist_Cons_right) simp
      then show ?thesis by (subst collapse_match [OF True])
    next
      case False
      then have lt: "lead (c # cs) < 3" using Cons by simp
      let ?o = "re_sub match_newlines [nl, nl] cs"
      have ih: "\<not> sublist [nl, nl, nl] ?o" using 1 Cons by simp
      have lo: "lead ?o = min 2 (lead cs)" by (rule lead_collapse)
      have "\<not> prefix [nl, nl, nl] (c # ?o)"
      proof
        assume "prefix [nl, nl, nl] (c # ?o)"
        then have "3 \<le> lead (c # ?o)" by (simp only: prefix_run)
        then have "c = nl \<and> 2 \<le> lead ?o" by (auto simp: lead_Cons split: if_splits)
        then have "c = nl \<and> 2 \<le> lead cs" using lo by simp
        then show False using lt by (simp add: lead_Cons)
      qed
      then have "\<not> sublist [nl, nl, nl] (c # ?o)" using ih by (simp only: sublist_Cons_right) simp
      then show ?thesis unfolding Cons collapse_copy [OF lt] .
    qed
  qed
qed

lemma clean_text_stripped: "strip (clean_text s) = clean_text s"
  by (simp only: clean_text_def Let_def strip_strip)

lemma clean_text_no_run: "\<not> contains [nl, nl, nl] (clean_text s)"
proof
  assume "contains [nl, nl, nl] (clean_text s)"
  then have a: "sublist [nl, nl, nl] (clean_text s)" by (simp only: contains_sublist)
  obtain u where u: "clean_text s = strip (re_sub match_newlines [nl, nl] u)"
    by (simp add: clean_text_def Let_def)
  have "sublist (clean_text s) (re_sub match_newlines [nl, nl] u)"
    unfolding u by (rule sublist_strip)
  with a have "sublist [nl, nl, nl] (re_sub match_newlines [nl, nl] u)"
    by (rule sublist_order.order_trans)
  then show False using collapse_no_run by blast
qed

section \<open>Memory files: path strings and files\<close>

text \<open>
  Claim C7, as amended. The enumeration of the memory files deduplicates by the path
  string that \<^verbatim>\<open>glob.glob\<close> returns, which is what \<^verbatim>\<open>seen_files\<close> holds: a path
  matched by two or more overlapping patterns is processed once, so the chunks of a run
  are those of the globbed paths in the order of their first occurrence, each path once.
  When different globbed strings resolve to different files, each file is processed
  once. Paths are not resolved: a file reached under two strings, as through a linked
  directory, is processed once for each string.
\<close>

theorem process_memory_files_dedup:
  "process_memory_files read_file relpath globbed =
     concat (map (memory_file_chunks read_file relpath) (first_seen (concat globbed))) \<and>
   distinct (first_seen (concat globbed)) \<and>
   set (first_seen (concat globbed)) = \<Union> (set ` set globbed) \<and>
   (inj_on resolve (\<Union> (set ` set globbed)) \<longrightarrow>
      distinct (map resolve (first_seen (concat globbed))))"
  by (simp add: process_memory_files_def foldl_nested memory_fold distinct_first_seen
      set_first_seen distinct_map)

theorem process_memory_files_dedup_witness:
  "process_memory_files
     (map_of [(''/m/a.md'', replicate 80 (CHR ''a'')), (''/m/kb/k.md'', replicate 80 (CHR ''k'')),
              (''/m/archive/x.md'', replicate 80 (CHR ''x'')), (''/m/archive/s/y.md'', replicate 80 (CHR ''y''))])
     (drop 3)
     [[''/m/a.md''], [''/m/kb/k.md''], [''/m/archive/x.md''], [''/m/archive/x.md'', ''/m/archive/s/y.md'']]
   = [(replicate 80 (CHR ''a''), ''memory:a.md''),
      (replicate 80 (CHR ''k''), ''memory:kb/k.md''),
      (replicate 80 (CHR ''x''), ''memory:archive/x.md''),
      (replicate 80 (CHR ''y''), ''memory:archive/s/y.md'')] \<and>
   distinct (map (resolve_links [])
     (first_seen (concat [[''/m/a.md''], [''/m/kb/k.md''], [''/m/archive/x.md''],
                          [''/m/archive/x.md'', ''/m/archive/s/y.md'']])))"
proof -
  let ?read = "map_of [(''/m/a.md'', replicate 80 (CHR ''a'')), (''/m/kb/k.md'', replicate 80 (CHR ''k'')),
              (''/m/archive/x.md'', replicate 80 (CHR ''x'')), (''/m/archive/s/y.md'', replicate 80 (CHR ''y''))]"
  let ?g = "[[''/m/a.md''], [''/m/kb/k.md''], [''/m/archive/x.md''], [''/m/archive/x.md'', ''/m/archive/s/y.md'']]"
  note r = process_memory_files_dedup [of ?read "drop 3" ?g "resolve_links []"]
  have ev: "concat (map (memory_file_chunks ?read (drop 3)) (first_seen (concat ?g)))
        = [(replicate 80 (CHR ''a''), ''memory:a.md''),
           (replicate 80 (CHR ''k''), ''memory:kb/k.md''),
           (replicate 80 (CHR ''x''), ''memory:archive/x.md''),
           (replicate 80 (CHR ''y''), ''memory:archive/s/y.md'')]"
    by code_simp
  have inj: "inj_on (resolve_links []) (\<Union> (set ` set ?g))"
    by (rule inj_onI) (simp add: resolve_links_def)
  from r have 1: "process_memory_files ?read (drop 3) ?g
                  = concat (map (memory_file_chunks ?read (drop 3)) (first_seen (concat ?g)))"
    by (rule conjunct1)
  from r inj have 2: "distinct (map (resolve_links []) (first_seen (concat ?g)))" by blast
  show ?thesis
    apply (rule conjI)
    apply (simp only: 1 ev)
    apply (rule 2)
    done
qed

theorem process_memory_files_alias_counterexample:
  "resolve_links [(''/m/archive/link/k.md'', ''/m/kb/k.md'')] ''/m/archive/link/k.md''
     = resolve_links [(''/m/archive/link/k.md'', ''/m/kb/k.md'')] ''/m/kb/k.md'' \<and>
   process_memory_files
     (read_through [(''/m/archive/link/k.md'', ''/m/kb/k.md'')] [(''/m/kb/k.md'', replicate 80 (CHR ''k''))])
     (drop 3)
     [[], [''/m/kb/k.md''], [], [''/m/archive/link/k.md'']]
   = [(replicate 80 (CHR ''k''), ''memory:kb/k.md''),
      (replicate 80 (CHR ''k''), ''memory:archive/link/k.md'')]"
proof -
  let ?L = "[(''/m/archive/link/k.md'', ''/m/kb/k.md'')]"
  let ?F = "[(''/m/kb/k.md'', replicate 80 (CHR ''k''))]"
  have a: "resolve_links ?L ''/m/archive/link/k.md'' = resolve_links ?L ''/m/kb/k.md''"
    by (simp add: resolve_links_def)
  have b: "concat (map (memory_file_chunks (read_through ?L ?F) (drop 3))
             (first_seen (concat [[], [''/m/kb/k.md''], [], [''/m/archive/link/k.md'']])))
           = [(replicate 80 (CHR ''k''), ''memory:kb/k.md''),
              (replicate 80 (CHR ''k''), ''memory:archive/link/k.md'')]"
    by code_simp
  have c: "process_memory_files (read_through ?L ?F) (drop 3)
             [[], [''/m/kb/k.md''], [], [''/m/archive/link/k.md'']]
           = concat (map (memory_file_chunks (read_through ?L ?F) (drop 3))
               (first_seen (concat [[], [''/m/kb/k.md''], [], [''/m/archive/link/k.md'']])))"
    by (simp only: process_memory_files_def foldl_nested memory_fold) simp
  show ?thesis
    apply (rule conjI)
    apply (rule a)
    apply (simp only: c b)
    done
qed

section \<open>The example of three paragraphs: what is emitted\<close>

lemma strip_trailing_space:
  assumes "strip x = x" and "x \<noteq> []" and "\<forall>c \<in> set w. isspace c"
  shows "strip (x @ w) = x"
proof -
  from strip_fixed [OF assms(1,2)] have h: "\<not> isspace (hd x)" and l: "\<not> isspace (last x)"
    by simp_all
  have a: "dropWhile isspace (x @ w) = x @ w"
    using h assms(2) by (simp add: dropWhile_eq_self_iff)
  have "dropWhile isspace (rev w @ rev x) = dropWhile isspace (rev x)"
    using assms(3) by (intro dropWhile_append2) simp
  also have "\<dots> = rev x" using l assms(2) by (simp add: dropWhile_eq_self_iff hd_rev)
  finally show ?thesis by (simp add: strip_def a)
qed

lemma three_paragraphs_flush:
  assumes "split_nn text = [p1, p2, p3]"
    and "length p1 = 2500" and "length p2 = 2500" and "length p3 = 2500"
  shows "chunk_text text source CHUNK_SIZE
         = (strip (p1 @ [nl, nl] @ p2), source) # (if strip p3 = [] then [] else [(strip p3, source)])"
proof -
  have ne: "p1 \<noteq> []" "p2 \<noteq> []" "p3 \<noteq> []" using assms(2-4) by auto
  have "text = join [nl, nl] (split_nn text)" by (simp add: join_split_nn)
  then have "text = p1 @ [nl, nl] @ p2 @ [nl, nl] @ p3" using assms(1) by simp
  then have "length text = 7504" using assms(2-4) by simp
  then have long: "\<not> int (length text) \<le> CHUNK_SIZE" by (simp add: CHUNK_SIZE_def)
  have 1: "chunk_step source CHUNK_SIZE ([], []) p1 = ([], p1)" by (simp add: chunk_step_def)
  have 2: "chunk_step source CHUNK_SIZE ([], p1) p2 = ([], p1 @ [nl, nl] @ p2)"
    using assms(2,3) ne by (simp add: chunk_step_def CHUNK_SIZE_def)
  have 3: "chunk_step source CHUNK_SIZE ([], p1 @ [nl, nl] @ p2) p3
           = ([(strip (p1 @ [nl, nl] @ p2), source)], p3)"
    using assms(2-4) ne by (simp add: chunk_step_def CHUNK_SIZE_def)
  have "chunk_loop source CHUNK_SIZE ([], []) [p1, p2, p3]
        = ([(strip (p1 @ [nl, nl] @ p2), source)], p3)"
    by (simp only: chunk_loop_Cons chunk_loop_Nil 1 2 3)
  then show ?thesis
    using long assms(1) by (simp add: chunk_text_def chunk_finish_def)
qed

text \<open>
  Claim C6, as amended. A text of three paragraphs of 2500 characters each, with the
  limit of 6000 characters, gives the chunk of paragraphs 1 and 2 joined by the separator
  and trimmed, then paragraph 3 trimmed (left out when it consists of whitespace). When
  the first two paragraphs joined, and the third, have no leading or trailing whitespace,
  these are exactly two chunks: paragraphs 1 and 2 joined by the separator, of length
  5002 (over 5000, under the limit), then paragraph 3 alone. The counterexample is a
  second paragraph that ends with three blanks: the first chunk then has 4999 characters.
\<close>

theorem three_paragraphs_two_chunks:
  assumes "split_nn text = [p1, p2, p3]"
    and "length p1 = 2500" and "length p2 = 2500" and "length p3 = 2500"
  shows "chunk_text text source CHUNK_SIZE
           = (strip (p1 @ [nl, nl] @ p2), source) # (if strip p3 = [] then [] else [(strip p3, source)]) \<and>
         (strip (p1 @ [nl, nl] @ p2) = p1 @ [nl, nl] @ p2 \<and> strip p3 = p3 \<longrightarrow>
            chunk_text text source CHUNK_SIZE = [(p1 @ [nl, nl] @ p2, source), (p3, source)] \<and>
            5000 < length (p1 @ [nl, nl] @ p2) \<and> int (length (p1 @ [nl, nl] @ p2)) < CHUNK_SIZE)"
proof (intro conjI impI)
  show g: "chunk_text text source CHUNK_SIZE
           = (strip (p1 @ [nl, nl] @ p2), source) # (if strip p3 = [] then [] else [(strip p3, source)])"
    using assms by (rule three_paragraphs_flush)
  assume t: "strip (p1 @ [nl, nl] @ p2) = p1 @ [nl, nl] @ p2 \<and> strip p3 = p3"
  have "p3 \<noteq> []" using assms(4) by auto
  then show "chunk_text text source CHUNK_SIZE = [(p1 @ [nl, nl] @ p2, source), (p3, source)]"
    using g t by simp
  show "5000 < length (p1 @ [nl, nl] @ p2)" using assms(2,3) by simp
  show "int (length (p1 @ [nl, nl] @ p2)) < CHUNK_SIZE" using assms(2,3) by (simp add: CHUNK_SIZE_def)
qed

theorem three_paragraphs_two_chunks_witness:
  "chunk_text (replicate 2500 (CHR ''a'') @ [nl, nl] @ replicate 2500 (CHR ''b'') @ [nl, nl]
                 @ replicate 2500 (CHR ''c'')) ''memory:a.md'' CHUNK_SIZE
     = [(replicate 2500 (CHR ''a'') @ [nl, nl] @ replicate 2500 (CHR ''b''), ''memory:a.md''),
        (replicate 2500 (CHR ''c''), ''memory:a.md'')] \<and>
   length (replicate 2500 (CHR ''a'') @ [nl, nl] @ replicate 2500 (CHR ''b'')) = 5002"
proof -
  let ?a = "replicate 2500 (CHR ''a'')"
  let ?b = "replicate 2500 (CHR ''b'')"
  let ?c = "replicate 2500 (CHR ''c'')"
  let ?t = "?a @ [nl, nl] @ ?b @ [nl, nl] @ ?c"
  have "split_nn (?a @ nl # nl # ?b @ nl # nl # ?c) = ?a # split_nn (?b @ nl # nl # ?c)"
    by (rule split_nn_plain_prefix) simp
  also have "split_nn (?b @ nl # nl # ?c) = ?b # split_nn ?c"
    by (rule split_nn_plain_prefix) simp
  also have "split_nn ?c = [?c]" by (rule split_nn_plain) simp
  finally have sp: "split_nn ?t = [?a, ?b, ?c]" by simp
  have sa: "strip ?a = ?a" by (rule strip_id) (simp_all add: isspace_def)
  have sb: "strip ?b = ?b" by (rule strip_id) (simp_all add: isspace_def)
  have sc: "strip ?c = ?c" by (rule strip_id) (simp_all add: isspace_def)
  have sab: "strip (?a @ [nl, nl] @ ?b) = ?a @ [nl, nl] @ ?b"
    by (rule strip_join2 [OF sa _ sb]) simp_all
  have l: "length ?a = 2500" "length ?b = 2500" "length ?c = 2500" by simp_all
  from three_paragraphs_two_chunks [OF sp l, of "''memory:a.md''", THEN conjunct2, THEN mp,
      OF conjI [OF sab sc]]
  show ?thesis by simp
qed

theorem three_paragraphs_counterexample:
  "split_nn (replicate 2500 (CHR ''a'') @ [nl, nl] @ (replicate 2497 (CHR ''b'') @ ''   '') @ [nl, nl]
               @ replicate 2500 (CHR ''c''))
     = [replicate 2500 (CHR ''a''), replicate 2497 (CHR ''b'') @ ''   '', replicate 2500 (CHR ''c'')] \<and>
   length (replicate 2497 (CHR ''b'') @ ''   '') = 2500 \<and>
   chunk_text (replicate 2500 (CHR ''a'') @ [nl, nl] @ (replicate 2497 (CHR ''b'') @ ''   '') @ [nl, nl]
                 @ replicate 2500 (CHR ''c'')) ''memory:a.md'' CHUNK_SIZE
     = [(replicate 2500 (CHR ''a'') @ [nl, nl] @ replicate 2497 (CHR ''b''), ''memory:a.md''),
        (replicate 2500 (CHR ''c''), ''memory:a.md'')] \<and>
   length (replicate 2500 (CHR ''a'') @ [nl, nl] @ replicate 2497 (CHR ''b'')) = 4999"
proof -
  let ?a = "replicate 2500 (CHR ''a'')"
  let ?b = "replicate 2497 (CHR ''b'') @ ''   ''"
  let ?c = "replicate 2500 (CHR ''c'')"
  let ?t = "?a @ [nl, nl] @ ?b @ [nl, nl] @ ?c"
  have "split_nn (?a @ nl # nl # ?b @ nl # nl # ?c) = ?a # split_nn (?b @ nl # nl # ?c)"
    by (rule split_nn_plain_prefix) simp
  also have "split_nn (?b @ nl # nl # ?c) = ?b # split_nn ?c"
    by (rule split_nn_plain_prefix) simp
  also have "split_nn ?c = [?c]" by (rule split_nn_plain) simp
  finally have sp: "split_nn ?t = [?a, ?b, ?c]" by simp
  have l: "length ?a = 2500" "length ?b = 2500" "length ?c = 2500" by simp_all
  have sc: "strip ?c = ?c" by (rule strip_id) (simp_all add: isspace_def)
  have x: "strip (?a @ [nl, nl] @ replicate 2497 (CHR ''b'')) = ?a @ [nl, nl] @ replicate 2497 (CHR ''b'')"
    by (rule strip_id) (simp_all add: isspace_def)
  have "strip ((?a @ [nl, nl] @ replicate 2497 (CHR ''b'')) @ ''   '')
        = ?a @ [nl, nl] @ replicate 2497 (CHR ''b'')"
    by (rule strip_trailing_space [OF x]) (simp_all add: isspace_def)
  then have sab: "strip (?a @ [nl, nl] @ ?b) = ?a @ [nl, nl] @ replicate 2497 (CHR ''b'')" by simp
  have ev: "chunk_text ?t ''memory:a.md'' CHUNK_SIZE
        = [(?a @ [nl, nl] @ replicate 2497 (CHR ''b''), ''memory:a.md''), (?c, ''memory:a.md'')]"
    unfolding three_paragraphs_flush [OF sp l] sab sc by simp
  show ?thesis
    apply (intro conjI)
    apply (rule sp)
    apply simp
    apply (rule ev)
    apply simp
    done
qed

section \<open>Texts that fit in one chunk\<close>









section \<open>Session logs: the aggregated document\<close>

lemma session_loop_total:
  assumes "\<forall>l \<in> set lines. \<exists>r. session_line l = Inr r"
  shows "session_loop acc lines = Inr (acc @ List.map_filter line_message lines)"
  using assms
proof (induction lines arbitrary: acc)
  case Nil
  then show ?case by (simp add: List.map_filter_simps)
next
  case (Cons l ls)
  from Cons.prems obtain r where r: "session_line l = Inr r" by auto
  have rest: "\<forall>l \<in> set ls. \<exists>r. session_line l = Inr r" using Cons.prems by simp
  show ?case
  proof (cases r)
    case None
    then show ?thesis using r Cons.IH [OF rest, of acc]
      by (simp add: List.map_filter_simps line_message_def)
  next
    case (Some m)
    then show ?thesis using r Cons.IH [OF rest, of "acc @ [m]"]
      by (simp add: List.map_filter_simps line_message_def)
  qed
qed

text \<open>
  Claim C9, as amended. In the processing of a session file none of whose lines raises an
  error other than a JSON parse error, the aggregated document is made of the messages
  that the lines add, in order, and a line adds its message exactly when the role is
  \<^verbatim>\<open>user\<close> or \<^verbatim>\<open>assistant\<close>, the raw extracted text is not noise and the cleaned text
  still has at least \<^const>\<open>MIN_MSG_LEN\<close> characters. The length test after cleaning is
  a second filter: a tool result of 100 characters passes \<^const>\<open>is_noise\<close> and is
  dropped because its cleaned text is the short placeholder. The counterexample is a
  file with a line that is a JSON list: the handler of the whole file returns no chunk,
  and the message of the first line, which meets the three conditions, is not included.
\<close>

theorem session_messages_included:
  "((\<forall>l \<in> set lines. \<exists>r. session_line l = Inr r) \<longrightarrow>
      process_session_file (Some lines) filepath =
        (if List.map_filter line_message lines = [] then []
         else chunk_text (join [nl, nl] (List.map_filter line_message lines))
                (''session:'' @ basename filepath) CHUNK_SIZE)) \<and>
   (dict_get obj ''message'' obj = Inr msg \<and> dict_get msg ''role'' (JStr []) = Inr role \<longrightarrow>
      (role \<noteq> JStr ''user'' \<and> role \<noteq> JStr ''assistant'' \<longrightarrow> line_message (Some obj) = None) \<and>
      ((role = JStr ''user'' \<or> role = JStr ''assistant'') \<and>
       dict_get msg ''content'' (JStr []) = Inr content \<and>
       extract_text_from_content content = Inr body \<longrightarrow>
         line_message (Some obj) =
           (if \<not> is_noise body \<and> MIN_MSG_LEN \<le> length (clean_text body)
            then Some (''['' @ (if role = JStr ''user'' then ''User'' else ''Assistant'')
                       @ '']: '' @ clean_text body)
            else None))) \<and>
   (\<not> is_noise (fr_open @ replicate 100 (CHR ''a'') @ fr_close) \<and>
    length (clean_text (fr_open @ replicate 100 (CHR ''a'') @ fr_close)) < MIN_MSG_LEN \<and>
    session_message (JStr ''user'') (fr_open @ replicate 100 (CHR ''a'') @ fr_close) = None)"
proof (intro conjI impI)
  assume "\<forall>l \<in> set lines. \<exists>r. session_line l = Inr r"
  then have "session_loop [] lines = Inr (List.map_filter line_message lines)"
    using session_loop_total [of lines "[]"] by simp
  then show "process_session_file (Some lines) filepath =
        (if List.map_filter line_message lines = [] then []
         else chunk_text (join [nl, nl] (List.map_filter line_message lines))
                (''session:'' @ basename filepath) CHUNK_SIZE)"
    by (simp add: process_session_file_def)
next
  assume "dict_get obj ''message'' obj = Inr msg \<and> dict_get msg ''role'' (JStr []) = Inr role"
    and "role \<noteq> JStr ''user'' \<and> role \<noteq> JStr ''assistant''"
  then show "line_message (Some obj) = None"
    by (simp add: line_message_def session_line_def)
next
  assume "dict_get obj ''message'' obj = Inr msg \<and> dict_get msg ''role'' (JStr []) = Inr role"
    and "(role = JStr ''user'' \<or> role = JStr ''assistant'') \<and>
       dict_get msg ''content'' (JStr []) = Inr content \<and>
       extract_text_from_content content = Inr body"
  then show "line_message (Some obj) =
           (if \<not> is_noise body \<and> MIN_MSG_LEN \<le> length (clean_text body)
            then Some (''['' @ (if role = JStr ''user'' then ''User'' else ''Assistant'')
                       @ '']: '' @ clean_text body)
            else None)"
    by (auto simp: line_message_def session_line_def session_message_def Let_def)
next
  show "\<not> is_noise (fr_open @ replicate 100 (CHR ''a'') @ fr_close)" by code_simp
next
  show "length (clean_text (fr_open @ replicate 100 (CHR ''a'') @ fr_close)) < MIN_MSG_LEN"
    by code_simp
next
  show "session_message (JStr ''user'') (fr_open @ replicate 100 (CHR ''a'') @ fr_close) = None"
    by code_simp
qed

theorem session_messages_included_witness:
  "process_session_file
     (Some [Some (JObj [(''message'', JObj [(''role'', JStr ''user''), (''content'', JStr (replicate 90 (CHR ''a'')))])]),
            None,
            Some (JObj [(''role'', JStr ''system''), (''content'', JStr (replicate 90 (CHR ''b'')))]),
            Some (JObj [(''role'', JStr ''assistant''),
                        (''content'', JStr (fr_open @ replicate 100 (CHR ''a'') @ fr_close))])])
     ''/s/x.jsonl''
     = [(''[User]: '' @ replicate 90 (CHR ''a''), ''session:x.jsonl'')] \<and>
   line_message (Some (JObj [(''message'', JObj [(''role'', JStr ''user''), (''content'', JStr (replicate 90 (CHR ''a'')))])]))
     = Some (''[User]: '' @ replicate 90 (CHR ''a'')) \<and>
   line_message (Some (JObj [(''role'', JStr ''system''), (''content'', JStr (replicate 90 (CHR ''b'')))]))
     = None"
proof -
  let ?body = "replicate 90 (CHR ''a'')"
  let ?msg = "JObj [(''role'', JStr ''user''), (''content'', JStr ?body)]"
  let ?l1 = "JObj [(''message'', ?msg)]"
  let ?l3 = "JObj [(''role'', JStr ''system''), (''content'', JStr (replicate 90 (CHR ''b'')))]"
  let ?l4 = "JObj [(''role'', JStr ''assistant''),
                   (''content'', JStr (fr_open @ replicate 100 (CHR ''a'') @ fr_close))]"
  let ?lines = "[Some ?l1, None, Some ?l3, Some ?l4]"
  let ?m = "''[User]: '' @ ?body"
  have s1: "session_line (Some ?l1) = Inr (Some ?m)" by code_simp
  have s2: "session_line None = Inr None" by (simp add: session_line_def)
  have s3: "session_line (Some ?l3) = Inr None" by code_simp
  have s4: "session_line (Some ?l4) = Inr None" by code_simp
  have h: "\<forall>l \<in> set ?lines. \<exists>r. session_line l = Inr r"
    using s1 s2 s3 s4 by simp
  note r = session_messages_included [of ?lines "''/s/x.jsonl''" ?l1 ?msg "JStr ''user''" "JStr ?body" ?body]
  note r3 = session_messages_included [of ?lines "''/s/x.jsonl''" ?l3 ?l3 "JStr ''system''" "JStr ?body" ?body]
  have mf: "List.map_filter line_message ?lines = [?m]"
    by (simp add: List.map_filter_simps line_message_def s1 s2 s3 s4)
  have fits: "chunk_text (join [nl, nl] [?m]) (''session:'' @ basename ''/s/x.jsonl'') CHUNK_SIZE
              = [(?m, ''session:x.jsonl'')]"
    by (simp add: chunk_text_def CHUNK_SIZE_def basename_def)
  have a: "process_session_file (Some ?lines) ''/s/x.jsonl'' = [(?m, ''session:x.jsonl'')]"
    using r [THEN conjunct1, THEN mp, OF h] unfolding mf fits by simp
  have d1: "dict_get ?l1 ''message'' ?l1 = Inr ?msg \<and> dict_get ?msg ''role'' (JStr []) = Inr (JStr ''user'')"
    by simp
  have d2: "(JStr ''user'' = JStr ''user'' \<or> JStr ''user'' = JStr ''assistant'') \<and>
            dict_get ?msg ''content'' (JStr []) = Inr (JStr ?body) \<and>
            extract_text_from_content (JStr ?body) = Inr ?body"
    by simp
  have n: "\<not> is_noise ?body" by code_simp
  have c: "clean_text ?body = ?body" by code_simp
  have b: "line_message (Some ?l1) = Some ?m"
    using r [THEN conjunct2, THEN conjunct1, THEN mp, OF d1, THEN conjunct2, THEN mp, OF d2] n c
    by (simp add: MIN_MSG_LEN_def)
  have d3: "dict_get ?l3 ''message'' ?l3 = Inr ?l3 \<and> dict_get ?l3 ''role'' (JStr []) = Inr (JStr ''system'')"
    by simp
  have d4: "JStr ''system'' \<noteq> JStr ''user'' \<and> JStr ''system'' \<noteq> JStr ''assistant''" by simp
  have e: "line_message (Some ?l3) = None"
    by (rule r3 [THEN conjunct2, THEN conjunct1, THEN mp, OF d3, THEN conjunct1, THEN mp, OF d4])
  show ?thesis
    apply (intro conjI)
    apply (rule a) apply (rule b) apply (rule e)
    done
qed

theorem session_messages_counterexample:
  "\<not> is_noise (replicate 90 (CHR ''a'')) \<and>
   MIN_MSG_LEN \<le> length (clean_text (replicate 90 (CHR ''a''))) \<and>
   session_line (Some (JObj [(''role'', JStr ''user''), (''content'', JStr (replicate 90 (CHR ''a'')))]))
     = Inr (Some (''[User]: '' @ replicate 90 (CHR ''a''))) \<and>
   session_line (Some (JArr [])) = Inl AttributeError \<and>
   process_session_file
     (Some [Some (JObj [(''role'', JStr ''user''), (''content'', JStr (replicate 90 (CHR ''a'')))])])
     ''/s/x.jsonl''
     = [(''[User]: '' @ replicate 90 (CHR ''a''), ''session:x.jsonl'')] \<and>
   process_session_file
     (Some [Some (JObj [(''role'', JStr ''user''), (''content'', JStr (replicate 90 (CHR ''a'')))]),
            Some (JArr [])])
     ''/s/x.jsonl''
     = []"
proof -
  let ?body = "replicate 90 (CHR ''a'')"
  let ?l1 = "JObj [(''role'', JStr ''user''), (''content'', JStr ?body)]"
  let ?m = "''[User]: '' @ ?body"
  have n: "\<not> is_noise ?body" by code_simp
  have c: "MIN_MSG_LEN \<le> length (clean_text ?body)" by code_simp
  have s1: "session_line (Some ?l1) = Inr (Some ?m)" by code_simp
  have s2: "session_line (Some (JArr [])) = Inl AttributeError" by (simp add: session_line_def)
  have p1: "process_session_file (Some [Some ?l1]) ''/s/x.jsonl'' = [(?m, ''session:x.jsonl'')]"
    by (simp add: process_session_file_def s1 chunk_text_def CHUNK_SIZE_def basename_def)
  have p2: "process_session_file (Some [Some ?l1, Some (JArr [])]) ''/s/x.jsonl'' = []"
    by (simp add: process_session_file_def s1 s2)
  show ?thesis
    apply (intro conjI)
    apply (rule n) apply (rule c) apply (rule s1) apply (rule s2) apply (rule p1) apply (rule p2)
    done
qed

section \<open>Cleaning twice\<close>

lemma has_match_iff: "has_match m s \<longleftrightarrow> (\<exists>i \<le> length s. m (drop i s) \<noteq> None)"
proof (induction s)
  case Nil
  then show ?case by simp
next
  case (Cons c cs)
  show ?case
  proof
    assume "has_match m (c # cs)"
    then consider "m (c # cs) \<noteq> None" | "has_match m cs" by auto
    then show "\<exists>i \<le> length (c # cs). m (drop i (c # cs)) \<noteq> None"
    proof cases
      case 1
      then have "m (drop 0 (c # cs)) \<noteq> None" by simp
      then show ?thesis by blast
    next
      case 2
      then obtain i where "i \<le> length cs" "m (drop i cs) \<noteq> None" using Cons.IH by auto
      then have "Suc i \<le> length (c # cs)" "m (drop (Suc i) (c # cs)) \<noteq> None" by auto
      then show ?thesis by blast
    qed
  next
    assume "\<exists>i \<le> length (c # cs). m (drop i (c # cs)) \<noteq> None"
    then obtain i where i: "i \<le> length (c # cs)" "m (drop i (c # cs)) \<noteq> None" by auto
    show "has_match m (c # cs)"
    proof (cases i)
      case 0
      then show ?thesis using i by simp
    next
      case (Suc j)
      then have "j \<le> length cs" "m (drop j cs) \<noteq> None" using i by auto
      then show ?thesis using Cons.IH by auto
    qed
  qed
qed

lemma re_sub_unmatched: "\<not> has_match m s \<Longrightarrow> re_sub m repl s = s"
  by (rule re_sub_no_match) (simp add: has_match_iff)

lemma re_sub_length_le:
  assumes "shrinking m repl"
  shows "length (re_sub m repl s) \<le> length s"
proof (induction s rule: length_induct)
  case (1 s)
  show ?case
  proof (cases s)
    case Nil
    then show ?thesis by simp
  next
    case (Cons c cs)
    show ?thesis
    proof (cases "m s")
      case None
      have "length (re_sub m repl cs) \<le> length cs" using 1 Cons by simp
      then show ?thesis using None Cons by simp
    next
      case (Some n)
      then have n: "length repl < n" "length repl < length s"
        using assms by (auto simp: shrinking_def)
      then have "0 < n" by simp
      then have e: "re_sub m repl s = repl @ re_sub m repl (drop n s)"
        using Some Cons by simp
      have "length (drop n s) < length s" using \<open>0 < n\<close> Cons by simp
      then have "length (re_sub m repl (drop n s)) \<le> length (drop n s)" using 1 by blast
      then show ?thesis using n unfolding e by simp
    qed
  qed
qed

lemma re_sub_length_less:
  assumes "shrinking m repl" and "has_match m s"
  shows "length (re_sub m repl s) < length s"
  using assms(2)
proof (induction s)
  case Nil
  then obtain n where "m [] = Some n" by auto
  with assms(1) have "length repl < length ([]::string)" unfolding shrinking_def by blast
  then show ?case by simp
next
  case (Cons c cs)
  show ?case
  proof (cases "m (c # cs)")
    case None
    then have "has_match m cs" using Cons.prems by simp
    then have "length (re_sub m repl cs) < length cs" by (rule Cons.IH)
    then show ?thesis using None by simp
  next
    case (Some n)
    with assms(1) have "length repl < n \<and> length repl < length (c # cs)"
      unfolding shrinking_def by blast
    then have n: "length repl < n" "length repl < length (c # cs)" by simp_all
    then have "0 < n" by simp
    then have e: "re_sub m repl (c # cs) = repl @ re_sub m repl (drop n (c # cs))"
      using Some by simp
    have "length (re_sub m repl (drop n (c # cs))) \<le> length (drop n (c # cs))"
      using assms(1) by (rule re_sub_length_le)
    then show ?thesis using n unfolding e by simp
  qed
qed

lemma shrinking_kgc: "shrinking (match_block kgc_open kgc_close) []"
  unfolding shrinking_def
proof (intro allI impI)
  fix s n assume "match_block kgc_open kgc_close s = Some n"
  then have p: "prefix kgc_open s" and n: "length kgc_open \<le> n"
    by (auto simp: match_block_def split: if_splits option.splits)
  have l: "length kgc_open = 25" by (simp add: kgc_open_def)
  from prefix_length_le [OF p] have "length kgc_open \<le> length s" .
  with n l show "length [] < n \<and> length [] < length s" by auto
qed

lemma shrinking_metadata: "shrinking match_metadata []"
  unfolding shrinking_def
proof (intro allI impI)
  fix s n assume "match_metadata s = Some n"
  then have p: "prefix fence_open s" and n: "length fence_open \<le> n"
    by (auto simp: match_metadata_def Let_def split: if_splits)
  have l: "length fence_open = 9" by (simp add: fence_open_def)
  from prefix_length_le [OF p] have "length fence_open \<le> length s" .
  with n l show "length [] < n \<and> length [] < length s" by auto
qed

lemma shrinking_fr: "shrinking (match_block fr_open fr_close) ''[tool output]''"
  unfolding shrinking_def
proof (intro allI impI)
  fix s n assume "match_block fr_open fr_close s = Some n"
  then have p: "prefix fr_open s" and n: "length fr_open \<le> n"
    by (auto simp: match_block_def split: if_splits option.splits)
  have l: "length fr_open = 18" by (simp add: fr_open_def)
  from prefix_length_le [OF p] have "length fr_open \<le> length s" .
  with n l show "length ''[tool output]'' < n \<and> length ''[tool output]'' < length s" by auto
qed

lemma shrinking_newlines: "shrinking match_newlines [nl, nl]"
  unfolding shrinking_def
proof (intro allI impI)
  fix s n assume "match_newlines s = Some n"
  then have "3 \<le> lead s" "n = lead s"
    by (auto simp: match_newlines_lead split: if_splits)
  moreover have "lead s \<le> length s" unfolding lead_def by (rule length_takeWhile_le)
  ultimately show "length [nl, nl] < n \<and> length [nl, nl] < length s" by auto
qed

lemma clean_text_fixed_iff:
  assumes "\<not> contains [nl, nl, nl] t" and "strip t = t"
  shows "clean_text t = t \<longleftrightarrow>
           \<not> has_match (match_block kgc_open kgc_close) t \<and>
           \<not> has_match match_metadata t \<and>
           \<not> has_match (match_block fr_open fr_close) t"
proof
  assume h: "\<not> has_match (match_block kgc_open kgc_close) t \<and>
           \<not> has_match match_metadata t \<and>
           \<not> has_match (match_block fr_open fr_close) t"
  have 1: "re_sub (match_block kgc_open kgc_close) [] t = t"
    using h by (simp add: re_sub_unmatched)
  have 2: "re_sub match_metadata [] t = t"
    using h by (simp add: re_sub_unmatched)
  have 3: "re_sub (match_block fr_open fr_close) ''[tool output]'' t = t"
    using h by (simp add: re_sub_unmatched)
  have 4: "re_sub match_newlines [nl, nl] t = t"
    using assms(1) by (intro re_sub_no_match) (simp add: match_newlines_needs_run)
  show "clean_text t = t" by (simp only: clean_text_def Let_def 1 2 3 4 assms(2))
next
  assume eq: "clean_text t = t"
  let ?t1 = "re_sub (match_block kgc_open kgc_close) [] t"
  let ?t2 = "re_sub match_metadata [] ?t1"
  let ?t3 = "re_sub (match_block fr_open fr_close) ''[tool output]'' ?t2"
  let ?t4 = "re_sub match_newlines [nl, nl] ?t3"
  have c: "clean_text t = strip ?t4" by (simp only: clean_text_def Let_def)
  have l5: "length (strip ?t4) \<le> length ?t4" by (rule length_strip_le)
  have l4: "length ?t4 \<le> length ?t3" by (rule re_sub_length_le [OF shrinking_newlines])
  have l3: "length ?t3 \<le> length ?t2" by (rule re_sub_length_le [OF shrinking_fr])
  have l2: "length ?t2 \<le> length ?t1" by (rule re_sub_length_le [OF shrinking_metadata])
  have l1: "length ?t1 \<le> length t" by (rule re_sub_length_le [OF shrinking_kgc])
  have tot: "length (strip ?t4) = length t" using eq c by simp
  have k: "\<not> has_match (match_block kgc_open kgc_close) t"
  proof
    assume "has_match (match_block kgc_open kgc_close) t"
    then have "length ?t1 < length t" by (rule re_sub_length_less [OF shrinking_kgc])
    then show False using tot l5 l4 l3 l2 by linarith
  qed
  then have e1: "?t1 = t" by (rule re_sub_unmatched)
  have m: "\<not> has_match match_metadata t"
  proof
    assume "has_match match_metadata t"
    then have "length (re_sub match_metadata [] t) < length t"
      by (rule re_sub_length_less [OF shrinking_metadata])
    then have "length ?t2 < length t" by (simp only: e1)
    then show False using tot l5 l4 l3 by linarith
  qed
  from re_sub_unmatched [OF m] have e2: "?t2 = t" by (simp only: e1)
  have f: "\<not> has_match (match_block fr_open fr_close) t"
  proof
    assume "has_match (match_block fr_open fr_close) t"
    then have "length (re_sub (match_block fr_open fr_close) ''[tool output]'' t) < length t"
      by (rule re_sub_length_less [OF shrinking_fr])
    then have "length ?t3 < length t" by (simp only: e2)
    then show False using tot l5 l4 by linarith
  qed
  from k m f show "\<not> has_match (match_block kgc_open kgc_close) t \<and>
           \<not> has_match match_metadata t \<and>
           \<not> has_match (match_block fr_open fr_close) t" by simp
qed

text \<open>
  Claim C4, as amended. Cleaning a cleaned text changes nothing exactly when the cleaned
  text holds no complete knowledge-graph-context block, no complete fenced metadata block
  and no complete function-results block. One pass of \<^const>\<open>clean_text\<close> can leave such
  a block behind, since removing a block brings together the text on its two sides: in
  the counterexample below an opening tag is cut in two by a whole block, the first pass
  removes that block, and the second pass removes the block that the first pass has put
  together. An opening tag that is never closed, or a fence without the key
  \<^verbatim>\<open>"message_id"\<close>, is left alone by both passes.
\<close>

theorem clean_text_idempotent_iff:
  "clean_text (clean_text text) = clean_text text \<longleftrightarrow>
     \<not> has_match (match_block kgc_open kgc_close) (clean_text text) \<and>
     \<not> has_match match_metadata (clean_text text) \<and>
     \<not> has_match (match_block fr_open fr_close) (clean_text text)"
  using clean_text_no_run clean_text_stripped by (rule clean_text_fixed_iff)

theorem clean_text_idempotent_iff_witness:
  "clean_text (''a'' @ kgc_open @ ''x'' @ kgc_close @ fr_open @ ''y '' @ fence_open @ fence_close)
     = ''a'' @ fr_open @ ''y '' @ fence_open @ fence_close \<and>
   clean_text (clean_text (''a'' @ kgc_open @ ''x'' @ kgc_close @ fr_open @ ''y '' @ fence_open @ fence_close))
     = clean_text (''a'' @ kgc_open @ ''x'' @ kgc_close @ fr_open @ ''y '' @ fence_open @ fence_close)"
proof -
  let ?t = "''a'' @ kgc_open @ ''x'' @ kgc_close @ fr_open @ ''y '' @ fence_open @ fence_close"
  let ?c = "''a'' @ fr_open @ ''y '' @ fence_open @ fence_close"
  have ev: "clean_text ?t = ?c" by code_simp
  have h1: "\<not> has_match (match_block kgc_open kgc_close) ?c" by code_simp
  have h2: "\<not> has_match match_metadata ?c" by code_simp
  have h3: "\<not> has_match (match_block fr_open fr_close) ?c" by code_simp
  have h: "\<not> has_match (match_block kgc_open kgc_close) (clean_text ?t) \<and>
           \<not> has_match match_metadata (clean_text ?t) \<and>
           \<not> has_match (match_block fr_open fr_close) (clean_text ?t)"
    unfolding ev using h1 h2 h3 by (intro conjI)
  from clean_text_idempotent_iff [of ?t, THEN iffD2, OF h] ev show ?thesis by (intro conjI)
qed

theorem clean_text_idempotent_counterexample:
  "clean_text (''<knowledge-graph-'' @ kgc_open @ ''x'' @ kgc_close @ ''context>y'' @ kgc_close)
     = kgc_open @ ''y'' @ kgc_close \<and>
   clean_text (clean_text (''<knowledge-graph-'' @ kgc_open @ ''x'' @ kgc_close @ ''context>y'' @ kgc_close))
     = [] \<and>
   clean_text (clean_text (''<knowledge-graph-'' @ kgc_open @ ''x'' @ kgc_close @ ''context>y'' @ kgc_close))
     \<noteq> clean_text (''<knowledge-graph-'' @ kgc_open @ ''x'' @ kgc_close @ ''context>y'' @ kgc_close)"
proof -
  let ?t = "''<knowledge-graph-'' @ kgc_open @ ''x'' @ kgc_close @ ''context>y'' @ kgc_close"
  have a: "clean_text ?t = kgc_open @ ''y'' @ kgc_close" by code_simp
  have b: "clean_text (kgc_open @ ''y'' @ kgc_close) = []" by code_simp
  have c: "kgc_open @ ''y'' @ kgc_close \<noteq> []" by simp
  show ?thesis
    apply (intro conjI)
    apply (rule a)
    apply (simp only: a b)
    apply (simp only: a b)
    apply (rule c [symmetric])
    done
qed

end
